theory Spec2Isabelle
  imports Complex_Main "HOL-Library.Monad_Syntax"
begin

unbundle bit_operations_syntax

section \<open>Data model of \<^verbatim>\<open>chiller~\<close>\<close>

text \<open>
  The embedding follows \<^verbatim>\<open>src/chiller~.cpp\<close>.  Conventions:

  \<^item> \<^verbatim>\<open>double\<close> and \<^verbatim>\<open>float\<close> values are modelled as \<^typ>\<open>real\<close>, and
    \<^verbatim>\<open>std::complex<double>\<close> as \<^typ>\<open>complex\<close>.  The arithmetic of the signal path
    (window, transform, normalisation, overlap-add) is exact.  Where one rounding decides an
    index, a branch or the value that is copied, the operation is rounded as the hardware
    rounds it (\<open>round_double\<close>, \<open>round_float\<close> below): the product that gives the start
    frame of a capture, the single-precision sum of a stereo pair, and the quotient that the
    scheduler compares the hop counter with.  There is no infinity and no NaN: where the
    source divides by a quantity that can be zero, or a sum can leave the range of its
    format, the model says so explicitly.
  \<^item> \<^verbatim>\<open>long\<close> fields and loop counters that only ever hold non-negative values are
    \<^typ>\<open>nat\<close>; values read from the host that may be negative are \<^typ>\<open>int\<close>.
    The sizes involved are at most 8192, far from the range of a 64-bit integer, so
    overflow is not modelled.
  \<^item> A \<^verbatim>\<open>std::vector\<close> is a list.  Every indexed access is range-checked in the model:
    an access outside the vector (undefined behaviour for \<^verbatim>\<open>operator[]\<close>, an exception
    for \<^verbatim>\<open>at\<close>) makes the operation return \<^const>\<open>None\<close>.
  \<^item> Pointers that are tested against \<^verbatim>\<open>NULL\<close> are options.
  \<^item> The functions of the host (buffer lookup, sample locking, system timer) and of the
    C++ standard library's random number generator are not part of the repository; they are
    parameters of the model, collected in the record \<open>host\<close>.
\<close>

type_synonym t_symbol = string
type_synonym t_buffer_ref = nat

record t_buffer_obj =
  buffer_locksamples :: "real list option"
  buffer_getframecount :: int
  buffer_getchannelcount :: int

record 'r host =
  buffer_ref_new :: "t_symbol \<Rightarrow> t_buffer_ref option"
  buffer_ref_getobject :: "t_buffer_ref \<Rightarrow> t_buffer_obj option"
  systimer_gettime :: real
  phase_dist :: "'r \<Rightarrow> real \<times> 'r"
  amp_dist :: "'r \<Rightarrow> real \<times> 'r"

record 'r t_chiller =
  buffer_ref :: "t_buffer_ref option"
  buffer_name :: t_symbol
  frozen_spectrum :: "complex list"
  window :: "real list"
  overlap_buffer_l :: "real list"
  overlap_buffer_r :: "real list"
  fft_buffer :: "complex list"
  analysis_buffer :: "real list"
  fft_size :: nat
  hop_size :: nat
  position :: real
  overlap_amount :: real
  grain_rate :: real
  phase_randomness :: real
  amplitude_variation :: real
  spectrum_captured :: bool
  capturing_spectrum :: bool
  grain_counter :: nat
  hop_counter :: nat
  sample_rate :: real
  last_position_change_time :: real
  rng :: 'r

text \<open>
  Modelled from the spec: the macro \<^verbatim>\<open>CLAMP\<close> comes from the host SDK's headers, which
  are not under \<^verbatim>\<open>src/\<close>.  The spec says that every setter clamps its argument to the
  documented range before storing it; the definition is the usual two-sided clamp.
\<close>

definition CLAMP :: "real \<Rightarrow> real \<Rightarrow> real \<Rightarrow> real" where
  "CLAMP a lo hi = (if a > lo then (if a < hi then a else hi) else lo)"

subsection \<open>Range-checked vector access\<close>

definition vget :: "'a list \<Rightarrow> nat \<Rightarrow> 'a option" where
  "vget xs i = (if i < length xs then Some (xs ! i) else None)"

definition vset :: "'a list \<Rightarrow> nat \<Rightarrow> 'a \<Rightarrow> 'a list option" where
  "vset xs i v = (if i < length xs then Some (xs[i := v]) else None)"

definition vswap :: "'a list \<Rightarrow> nat \<Rightarrow> nat \<Rightarrow> 'a list option" where
  "vswap xs i j = do { a \<leftarrow> vget xs i; b \<leftarrow> vget xs j; ys \<leftarrow> vset xs i b; vset ys j a }"

text \<open>Reading the host's sample array at a \<^verbatim>\<open>long\<close> index.\<close>

definition sget :: "real list \<Rightarrow> int \<Rightarrow> real option" where
  "sget xs k = (if 0 \<le> k \<and> nat k < length xs then Some (xs ! nat k) else None)"

text \<open>
  Division of doubles by a divisor that may be zero: the IEEE result is an infinity or a NaN,
  which \<^typ>\<open>real\<close> does not have; the model returns \<^const>\<open>None\<close>.
\<close>

definition fdiv :: "real \<Rightarrow> real \<Rightarrow> real option" where
  "fdiv a b = (if b = 0 then None else Some (a / b))"

text \<open>The cast \<^verbatim>\<open>(long)\<close> of a double truncates towards zero.\<close>

definition long_of_double :: "real \<Rightarrow> int" where
  "long_of_double r = (if 0 \<le> r then \<lfloor>r\<rfloor> else \<lceil>r\<rceil>)"

subsection \<open>Rounding to double and to single precision\<close>

text \<open>
  IEEE 754 arithmetic returns the exact result rounded to the nearest number of the format,
  a tie going to the neighbour with an even significand.  A binary format has \<open>p\<close>
  significant bits and a least exponent \<open>emin\<close>: the numbers of the format around \<open>r\<close>
  are the multiples of \<open>ulp p emin r\<close>, which is 2 to the power \<open>e - p + 1\<close> where 2 to the
  power \<open>e\<close> is the largest power of two not above \<open>\<bar>r\<bar>\<close>, and \<open>e\<close> is replaced by
  \<open>emin\<close> when it would be smaller (subnormal numbers).  The exponent is not bounded from
  above here; the operations below say what happens to a result beyond the largest finite
  number.  A \<^verbatim>\<open>double\<close> has \<open>p = 53\<close> and \<open>emin = -1022\<close>, a \<^verbatim>\<open>float\<close> has
  \<open>p = 24\<close> and \<open>emin = -126\<close>.
\<close>

definition round_even :: "real \<Rightarrow> int" where
  "round_even m =
     (let f = \<lfloor>m\<rfloor>
      in if m - of_int f < 1 / 2 then f
         else if 1 / 2 < m - of_int f then f + 1
         else if even f then f else f + 1)"

definition ulp :: "nat \<Rightarrow> int \<Rightarrow> real \<Rightarrow> real" where
  "ulp p emin r = 2 powi (max \<lfloor>log 2 \<bar>r\<bar>\<rfloor> emin - int p + 1)"

definition round_binary :: "nat \<Rightarrow> int \<Rightarrow> real \<Rightarrow> real" where
  "round_binary p emin r =
     (if r = 0 then 0 else of_int (round_even (r / ulp p emin r)) * ulp p emin r)"

definition round_double :: "real \<Rightarrow> real" where
  "round_double = round_binary 53 (- 1022)"

definition round_float :: "real \<Rightarrow> real" where
  "round_float = round_binary 24 (- 126)"

text \<open>The conversion of a \<^verbatim>\<open>long\<close> to a \<^verbatim>\<open>double\<close>.\<close>

definition double_of_long :: "int \<Rightarrow> real" where
  "double_of_long n = round_double (real_of_int n)"

text \<open>
  The sum of two \<^verbatim>\<open>float\<close> values, which is a \<^verbatim>\<open>float\<close>.  A sum that rounds to
  magnitude \<open>2\<^sup>1\<^sup>2\<^sup>8\<close> or more is an infinity in the source; the model returns \<^const>\<open>None\<close>.
\<close>

definition float_add :: "real \<Rightarrow> real \<Rightarrow> real option" where
  "float_add a b = (let s = round_float (a + b) in if \<bar>s\<bar> < 2 ^ 128 then Some s else None)"

section \<open>Window generator (\<^verbatim>\<open>chiller_generate_window\<close>, \<^verbatim>\<open>chiller_apply_window\<close>)\<close>

definition hann :: "nat \<Rightarrow> nat \<Rightarrow> real option" where
  "hann i sz = do { q \<leftarrow> fdiv (2.0 * pi * real i) (real_of_int (int sz - 1));
                      Some (0.5 * (1.0 - cos q)) }"

function generate_window_loop :: "nat \<Rightarrow> nat \<Rightarrow> real list \<Rightarrow> real list option" where
  "generate_window_loop sz i win =
     (if i < sz then
        (case Option.bind (hann i sz) (vset win i) of
           None \<Rightarrow> None
         | Some win' \<Rightarrow> generate_window_loop sz (i + 1) win')
      else Some win)"
  by pat_completeness auto
termination
  by (relation "measure (\<lambda>(sz, i, win). sz - i)") auto

declare generate_window_loop.simps [simp del]

definition chiller_generate_window :: "real list \<Rightarrow> nat \<Rightarrow> real list option" where
  "chiller_generate_window win sz = generate_window_loop sz 0 win"

function apply_window_loop :: "nat \<Rightarrow> real list \<Rightarrow> real list \<Rightarrow> real list" where
  "apply_window_loop i buffer win =
     (if i < length buffer \<and> i < length win then
        apply_window_loop (i + 1) (buffer[i := buffer ! i * win ! i]) win
      else buffer)"
  by pat_completeness auto
termination
  by (relation "measure (\<lambda>(i, buffer, win). length buffer - i)") auto

declare apply_window_loop.simps [simp del]

definition chiller_apply_window :: "real list \<Rightarrow> real list \<Rightarrow> real list" where
  "chiller_apply_window buffer win = apply_window_loop 0 buffer win"

section \<open>Spectral transform (\<^verbatim>\<open>chiller_fft\<close>, \<^verbatim>\<open>chiller_ifft\<close>)\<close>

text \<open>
  The inner loop of the bit-reversal reordering,
  \<^verbatim>\<open>for (; j & bit; bit >>= 1) j ^= bit;\<close>, returns the final \<open>j\<close> and \<open>bit\<close>.
\<close>

function bit_loop :: "nat \<Rightarrow> nat \<Rightarrow> nat \<times> nat" where
  "bit_loop j b = (if j AND b \<noteq> 0 then bit_loop (j XOR b) (drop_bit 1 b) else (j, b))"
  by pat_completeness auto
termination
proof (relation "measure snd")
  show "wf (measure snd)" by simp
next
  fix j b :: nat
  assume "j AND b \<noteq> 0"
  then have "b \<noteq> 0" by (cases "b = 0") simp_all
  then show "((j XOR b, drop_bit 1 b), (j, b)) \<in> measure snd"
    by (simp add: drop_bit_eq_div)
qed

function bit_reverse_reorder :: "nat \<Rightarrow> nat \<Rightarrow> nat \<Rightarrow> complex list \<Rightarrow> complex list option" where
  "bit_reverse_reorder n i j data =
     (if i < n then
        (case bit_loop j (drop_bit 1 n) of
           (j1, b) \<Rightarrow>
             (case (if i < j1 XOR b then vswap data i (j1 XOR b) else Some data) of
                None \<Rightarrow> None
              | Some data' \<Rightarrow> bit_reverse_reorder n (i + 1) (j1 XOR b) data'))
      else Some data)"
  by pat_completeness auto
termination
  by (relation "measure (\<lambda>(n, i, j, data). n - i)") auto

declare bit_loop.simps [simp del] bit_reverse_reorder.simps [simp del]

text \<open>One butterfly: the body of the innermost loop of the transform.\<close>

definition butterfly :: "nat \<Rightarrow> nat \<Rightarrow> nat \<Rightarrow> complex \<Rightarrow> complex list \<Rightarrow> complex list option" where
  "butterfly len i j w data =
     do { u \<leftarrow> vget data (i + j);
          t \<leftarrow> vget data (i + j + len div 2);
          d1 \<leftarrow> vset data (i + j) (u + t * w);
          vset d1 (i + j + len div 2) (u - t * w) }"

function fft_butterflies ::
    "nat \<Rightarrow> complex \<Rightarrow> nat \<Rightarrow> nat \<Rightarrow> complex \<Rightarrow> complex list \<Rightarrow> complex list option" where
  "fft_butterflies len wlen i j w data =
     (if j < len div 2 then
        (case butterfly len i j w data of
           None \<Rightarrow> None
         | Some data' \<Rightarrow> fft_butterflies len wlen i (j + 1) (w * wlen) data')
      else Some data)"
  by pat_completeness auto
termination
  by (relation "measure (\<lambda>(len, wlen, i, j, w, data). len div 2 - j)") auto

declare fft_butterflies.simps [simp del]

text \<open>
  The two outer loops, \<^verbatim>\<open>for (i = 0; i < n; i += len)\<close> and
  \<^verbatim>\<open>for (len = 2; len <= n; len <<= 1)\<close>, do not terminate for \<open>len = 0\<close>; they
  are partial functions, and a run that does not return has the value \<^const>\<open>None\<close>.
\<close>

partial_function (option) fft_blocks ::
    "nat \<Rightarrow> nat \<Rightarrow> complex \<Rightarrow> nat \<Rightarrow> complex list \<Rightarrow> complex list option" where
  "fft_blocks n len wlen i data =
     (if i < n then
        Option.bind (fft_butterflies len wlen i 0 1 data) (fft_blocks n len wlen (i + len))
      else Some data)"

partial_function (option) fft_stages :: "nat \<Rightarrow> nat \<Rightarrow> complex list \<Rightarrow> complex list option" where
  "fft_stages n len data =
     (if len \<le> n then
        Option.bind
          (fft_blocks n len (Complex (cos (2 * pi / real len)) (sin (2 * pi / real len))) 0 data)
          (fft_stages n (push_bit 1 len))
      else Some data)"

definition chiller_fft :: "complex list \<Rightarrow> complex list option" where
  "chiller_fft data =
     (let n = length data in
      if n \<le> 1 then Some data
      else Option.bind (bit_reverse_reorder n 1 0 data) (fft_stages n 2))"

definition chiller_ifft :: "complex list \<Rightarrow> complex list option" where
  "chiller_ifft data =
     Option.bind (chiller_fft (map cnj data))
       (\<lambda>d. Some (map (\<lambda>z. cnj z / of_nat (length d)) d))"


section \<open>Spectrum capture pipeline (\<^verbatim>\<open>chiller_capture_spectrum\<close>)\<close>

text \<open>What the routine reports to the host (\<^verbatim>\<open>object_error\<close>, \<^verbatim>\<open>object_post\<close>).\<close>

datatype report =
  No_buffer_set | Buffer_not_found | Could_not_access_buffer_data | Buffer_too_small
  | Spectrum_captured

text \<open>
  The variable \<^verbatim>\<open>start_frame\<close>: \<^verbatim>\<open>(long)(x->position * (buffer_frames - x->fft_size))\<close>.  The
  difference of the two \<^verbatim>\<open>long\<close> values is converted to a double, the product is a
  double, and the cast truncates it.  (The cast of a double outside the range of
  \<^verbatim>\<open>long\<close> is undefined; with a position between 0 and 1 the product is within it.)
\<close>

definition capture_start_frame :: "real \<Rightarrow> int \<Rightarrow> nat \<Rightarrow> int" where
  "capture_start_frame p buffer_frames n =
     long_of_double (round_double (p * double_of_long (buffer_frames - int n)))"

text \<open>
  The loop that copies \<open>n\<close> frames into the analysis buffer, mixing to mono.  The host's
  samples are \<^verbatim>\<open>float\<close> values: for one channel the sample is converted to a double,
  which is exact; otherwise the two samples are added in single precision and the sum,
  converted to a double, is multiplied by \<^verbatim>\<open>0.5\<close>.
\<close>

definition read_frame :: "real list \<Rightarrow> int \<Rightarrow> int \<Rightarrow> real option" where
  "read_frame buffer_samples buffer_channels k =
     (if buffer_channels = 1 then sget buffer_samples k
      else do { a \<leftarrow> sget buffer_samples (k * 2);
                b \<leftarrow> sget buffer_samples (k * 2 + 1);
                s \<leftarrow> float_add a b;
                Some (round_double (s * 0.5)) })"

function copy_samples ::
    "real list \<Rightarrow> int \<Rightarrow> int \<Rightarrow> nat \<Rightarrow> nat \<Rightarrow> real list \<Rightarrow> real list option" where
  "copy_samples buffer_samples buffer_channels start_frame n i ab =
     (if i < n then
        (case Option.bind (read_frame buffer_samples buffer_channels (start_frame + int i))
                (vset ab i) of
           None \<Rightarrow> None
         | Some ab' \<Rightarrow> copy_samples buffer_samples buffer_channels start_frame n (i + 1) ab')
      else Some ab)"
  by pat_completeness auto
termination
  by (relation "measure (\<lambda>(buffer_samples, buffer_channels, start_frame, n, i, ab). n - i)") auto

declare copy_samples.simps [simp del]

function copy_to_fft :: "real list \<Rightarrow> nat \<Rightarrow> complex list \<Rightarrow> complex list option" where
  "copy_to_fft ab i fb =
     (if i < length ab then
        (case vset fb i (Complex (ab ! i) 0.0) of
           None \<Rightarrow> None
         | Some fb' \<Rightarrow> copy_to_fft ab (i + 1) fb')
      else Some fb)"
  by pat_completeness auto
termination
  by (relation "measure (\<lambda>(ab, i, fb). length ab - i)") auto

declare copy_to_fft.simps [simp del]

text \<open>Energy of the spectrum and its normalisation; both loops run over the whole vector.\<close>

definition spectrum_energy :: "complex list \<Rightarrow> real" where
  "spectrum_energy fb = foldl (\<lambda>e z. e + cmod z * cmod z) 0.0 fb"

definition normalize_spectrum :: "nat \<Rightarrow> complex list \<Rightarrow> complex list" where
  "normalize_spectrum n fb =
     (let target_energy = real n * 0.1 in
      if spectrum_energy fb > 1 / 10 ^ 10 then
        map (\<lambda>z. z * complex_of_real (sqrt (target_energy / spectrum_energy fb))) fb
      else fb)"

definition chiller_capture_spectrum ::
    "'r host \<Rightarrow> 'r t_chiller \<Rightarrow> (report \<times> 'r t_chiller) option" where
  "chiller_capture_spectrum h x =
     (case buffer_ref x of
        None \<Rightarrow> Some (No_buffer_set, x)
      | Some ref \<Rightarrow>
          (let x1 = x\<lparr>capturing_spectrum := True\<rparr> in
           case buffer_ref_getobject h ref of
             None \<Rightarrow> Some (Buffer_not_found, x1\<lparr>capturing_spectrum := False\<rparr>)
           | Some buffer \<Rightarrow>
               (case buffer_locksamples buffer of
                  None \<Rightarrow> Some (Could_not_access_buffer_data, x1\<lparr>capturing_spectrum := False\<rparr>)
                | Some buffer_samples \<Rightarrow>
                    (let buffer_frames = buffer_getframecount buffer;
                         buffer_channels = buffer_getchannelcount buffer
                     in if buffer_frames < int (fft_size x1)
                        then Some (Buffer_too_small, x1\<lparr>capturing_spectrum := False\<rparr>)
                        else
                          do { let start_frame =
                                 capture_start_frame (position x1) buffer_frames (fft_size x1);
                               ab \<leftarrow> copy_samples buffer_samples buffer_channels start_frame
                                       (fft_size x1) 0 (analysis_buffer x1);
                               let ab = chiller_apply_window ab (window x1);
                               fb \<leftarrow> copy_to_fft ab 0 (fft_buffer x1);
                               fb \<leftarrow> chiller_fft fb;
                               let fb = normalize_spectrum (fft_size x1) fb;
                               Some (Spectrum_captured,
                                 x1\<lparr>analysis_buffer := ab, fft_buffer := fb, frozen_spectrum := fb,
                                    overlap_buffer_l := map (\<lambda>_. 0.0) (overlap_buffer_l x1),
                                    overlap_buffer_r := map (\<lambda>_. 0.0) (overlap_buffer_r x1),
                                    hop_counter := 0, spectrum_captured := True,
                                    capturing_spectrum := False\<rparr>) }))))"

section \<open>Grain resynthesis and output scheduler (\<^verbatim>\<open>chiller_perform64\<close>)\<close>

function randomize_spectrum ::
    "'r host \<Rightarrow> real \<Rightarrow> real \<Rightarrow> complex list \<Rightarrow> nat \<Rightarrow> 'r \<Rightarrow> complex list
      \<Rightarrow> (complex list \<times> 'r) option" where
  "randomize_spectrum h pr av frozen j g fb =
     (if j < length frozen then
        (case phase_dist h g of
           (d1, g1) \<Rightarrow>
             (case amp_dist h g1 of
                (d2, g2) \<Rightarrow>
                  (let phase = Arg (frozen ! j) + d1 * pr;
                       magnitude = cmod (frozen ! j) * (1.0 + d2 * av)
                   in case vset fb j (complex_of_real magnitude * cis phase) of
                        None \<Rightarrow> None
                      | Some fb' \<Rightarrow> randomize_spectrum h pr av frozen (j + 1) g2 fb')))
      else Some (fb, g))"
  by pat_completeness auto
termination
  by (relation "measure (\<lambda>(h, pr, av, frozen, j, g, fb). length frozen - j)") auto

declare randomize_spectrum.simps [simp del]

definition add_sample :: "complex list \<Rightarrow> real list \<Rightarrow> nat \<Rightarrow> real list \<Rightarrow> real list
    \<Rightarrow> (real list \<times> real list) option" where
  "add_sample fb win j l r =
     do { z \<leftarrow> vget fb j;
          w \<leftarrow> vget win j;
          a \<leftarrow> vget l j;
          l' \<leftarrow> vset l j (a + Re z * w * 0.8);
          b \<leftarrow> vget r j;
          r' \<leftarrow> vset r j (b + Re z * w * 1.0);
          Some (l', r') }"

function overlap_add :: "complex list \<Rightarrow> real list \<Rightarrow> nat \<Rightarrow> real list \<Rightarrow> real list
    \<Rightarrow> (real list \<times> real list) option" where
  "overlap_add fb win j l r =
     (if j < length fb then
        (case add_sample fb win j l r of
           None \<Rightarrow> None
         | Some (l', r') \<Rightarrow> overlap_add fb win (j + 1) l' r')
      else Some (l, r))"
  by pat_completeness auto
termination
  by (relation "measure (\<lambda>(fb, win, j, l, r). length fb - j)") auto

declare overlap_add.simps [simp del]

definition generate_grain :: "'r host \<Rightarrow> 'r t_chiller \<Rightarrow> 'r t_chiller option" where
  "generate_grain h x =
     do { (fb, g) \<leftarrow> randomize_spectrum h (phase_randomness x) (amplitude_variation x)
                       (frozen_spectrum x) 0 (rng x) (fft_buffer x);
          fb' \<leftarrow> chiller_ifft fb;
          (l, r) \<leftarrow> overlap_add fb' (window x) 0 (overlap_buffer_l x) (overlap_buffer_r x);
          Some (x\<lparr>fft_buffer := fb', rng := g, overlap_buffer_l := l, overlap_buffer_r := r\<rparr>) }"

text \<open>
  The shift of both accumulators.  The loop bound \<^verbatim>\<open>overlap_buffer_l->size() - 1\<close> is
  unsigned: for an empty vector it wraps around and the loop leaves the vector at once.
\<close>

definition shift_sample :: "nat \<Rightarrow> real list \<Rightarrow> real list \<Rightarrow> (real list \<times> real list) option" where
  "shift_sample j l r =
     do { a \<leftarrow> vget l (j + 1);
          l' \<leftarrow> vset l j a;
          b \<leftarrow> vget r (j + 1);
          r' \<leftarrow> vset r j b;
          Some (l', r') }"

function shift_loop :: "nat \<Rightarrow> nat \<Rightarrow> real list \<Rightarrow> real list \<Rightarrow> (real list \<times> real list) option" where
  "shift_loop n j l r =
     (if j < n then
        (case shift_sample j l r of
           None \<Rightarrow> None
         | Some (l', r') \<Rightarrow> shift_loop n (j + 1) l' r')
      else Some (l, r))"
  by pat_completeness auto
termination
  by (relation "measure (\<lambda>(n, j, l, r). n - j)") auto

declare shift_loop.simps [simp del]

definition shift_overlap :: "real list \<Rightarrow> real list \<Rightarrow> (real list \<times> real list) option" where
  "shift_overlap l r =
     (if length l = 0 then None
      else do { (l1, r1) \<leftarrow> shift_loop (length l - 1) 0 l r;
                l2 \<leftarrow> vset l1 (length l1 - 1) 0.0;
                r2 \<leftarrow> vset r1 (length r1 - 1) 0.0;
                Some (l2, r2) })"

text \<open>
  The comparison \<^verbatim>\<open>hop_counter >= hop_size / grain_rate\<close> is made in doubles: the two
  \<^verbatim>\<open>long\<close> values are converted and the quotient is rounded.  For a zero grain rate the
  quotient is an infinity or a NaN and the comparison is false; it is false as well when
  the quotient rounds to \<open>2\<^sup>1\<^sup>0\<^sup>2\<^sup>4\<close> or more, which is the positive infinity in the source.
\<close>

definition hop_due :: "'r t_chiller \<Rightarrow> bool" where
  "hop_due x \<longleftrightarrow>
     grain_rate x \<noteq> 0
     \<and> (let q = round_double (double_of_long (int (hop_size x)) / grain_rate x)
        in q < 2 ^ 1024 \<and> double_of_long (int (hop_counter x)) \<ge> q)"

text \<open>
  The part of the loop body before the output: count the sample and, when a hop is due,
  generate a grain.
\<close>

definition hop_step :: "'r host \<Rightarrow> 'r t_chiller \<Rightarrow> 'r t_chiller option" where
  "hop_step h x =
     (let x1 = x\<lparr>hop_counter := hop_counter x + 1\<rparr>
      in if hop_due x1 then generate_grain h (x1\<lparr>hop_counter := 0\<rparr>) else Some x1)"

text \<open>One iteration of the sample loop: the two output samples and the new state.\<close>

definition perform_sample :: "'r host \<Rightarrow> 'r t_chiller \<Rightarrow> (real \<times> real \<times> 'r t_chiller) option" where
  "perform_sample h x =
     do { x2 \<leftarrow> hop_step h x;
          a \<leftarrow> vget (overlap_buffer_l x2) 0;
          b \<leftarrow> vget (overlap_buffer_r x2) 0;
          (l, r) \<leftarrow> shift_overlap (overlap_buffer_l x2) (overlap_buffer_r x2);
          Some (a * 0.1, b * 0.1, x2\<lparr>overlap_buffer_l := l, overlap_buffer_r := r\<rparr>) }"

fun perform_loop ::
    "'r host \<Rightarrow> nat \<Rightarrow> 'r t_chiller \<Rightarrow> (real list \<times> real list \<times> 'r t_chiller) option" where
  "perform_loop h 0 x = Some ([], [], x)"
| "perform_loop h (Suc n) x =
     do { (a, b, x1) \<leftarrow> perform_sample h x;
          (out_l, out_r, x2) \<leftarrow> perform_loop h n x1;
          Some (a # out_l, b # out_r, x2) }"

fun silence :: "nat \<Rightarrow> real list \<times> real list" where
  "silence 0 = ([], [])"
| "silence (Suc n) = (case silence n of (out_l, out_r) \<Rightarrow> (0.0 # out_l, 0.0 # out_r))"

text \<open>
  The audio callback.  The result holds the \<open>sampleframes\<close> samples written to the left
  and to the right output, in order, and the state after the block.
\<close>

definition chiller_perform64 ::
    "'r host \<Rightarrow> 'r t_chiller \<Rightarrow> nat \<Rightarrow> (real list \<times> real list \<times> 'r t_chiller) option" where
  "chiller_perform64 h x sampleframes =
     (if \<not> spectrum_captured x \<or> buffer_ref x = None then
        (case silence sampleframes of (out_l, out_r) \<Rightarrow> Some (out_l, out_r, x))
      else perform_loop h sampleframes x)"

section \<open>Parameter setters\<close>

definition chiller_set_overlap :: "'r t_chiller \<Rightarrow> real \<Rightarrow> 'r t_chiller" where
  "chiller_set_overlap x overlap = x\<lparr>overlap_amount := CLAMP overlap 1.0 8.0\<rparr>"

definition chiller_set_rate :: "'r t_chiller \<Rightarrow> real \<Rightarrow> 'r t_chiller" where
  "chiller_set_rate x rate = x\<lparr>grain_rate := CLAMP rate 0.1 4.0\<rparr>"

definition chiller_set_phase_rand :: "'r t_chiller \<Rightarrow> real \<Rightarrow> 'r t_chiller" where
  "chiller_set_phase_rand x rand_amount = x\<lparr>phase_randomness := CLAMP rand_amount 0.0 1.0\<rparr>"

definition chiller_set_amp_var :: "'r t_chiller \<Rightarrow> real \<Rightarrow> 'r t_chiller" where
  "chiller_set_amp_var x var_amount = x\<lparr>amplitude_variation := CLAMP var_amount 0.0 0.5\<rparr>"

section \<open>Commands (\<^verbatim>\<open>set\<close>, \<^verbatim>\<open>position\<close>, \<^verbatim>\<open>freeze\<close>, \<^verbatim>\<open>bang\<close>, \<^verbatim>\<open>notify\<close>, \<^verbatim>\<open>dsp64\<close>)\<close>

definition chiller_set_buffer :: "'r host \<Rightarrow> 'r t_chiller \<Rightarrow> t_symbol \<Rightarrow> 'r t_chiller" where
  "chiller_set_buffer h x s =
     x\<lparr>buffer_name := s, buffer_ref := buffer_ref_new h s, spectrum_captured := False\<rparr>"

text \<open>
  The position command reports nothing when the request is dropped or when a capture is
  already running; otherwise it reports what the capture reports.
\<close>

definition chiller_set_position ::
    "'r host \<Rightarrow> 'r t_chiller \<Rightarrow> real \<Rightarrow> (report option \<times> 'r t_chiller) option" where
  "chiller_set_position h x pos =
     (let current_time = systimer_gettime h; min_interval = 500.0
      in if current_time - last_position_change_time x < min_interval then Some (None, x)
         else
           (let x1 = x\<lparr>position := CLAMP pos 0.0 1.0, last_position_change_time := current_time\<rparr>
            in if \<not> capturing_spectrum x1
               then map_option (\<lambda>(rep, x'). (Some rep, x'))
                      (chiller_capture_spectrum h (x1\<lparr>spectrum_captured := False\<rparr>))
               else Some (None, x1)))"

definition chiller_freeze :: "'r host \<Rightarrow> 'r t_chiller \<Rightarrow> (report \<times> 'r t_chiller) option" where
  "chiller_freeze h x = chiller_capture_spectrum h x"

text \<open>
  The \<^verbatim>\<open>bang\<close> message posts diagnostics to the host's console.  It reads the state
  (the first four entries of the left accumulator among others, which exist for every valid
  size) and writes no field.
\<close>

definition chiller_debug :: "'r t_chiller \<Rightarrow> 'r t_chiller" where
  "chiller_debug x = x"

definition chiller_notify :: "'r t_chiller \<Rightarrow> t_symbol \<Rightarrow> 'r t_chiller" where
  "chiller_notify x msg =
     (if msg = ''globalsymbol_binding'' then x\<lparr>spectrum_captured := False\<rparr> else x)"

definition chiller_dsp64 :: "'r t_chiller \<Rightarrow> real \<Rightarrow> 'r t_chiller" where
  "chiller_dsp64 x samplerate = x\<lparr>sample_rate := samplerate\<rparr>"

section \<open>Construction (\<^verbatim>\<open>chiller_new\<close>)\<close>

datatype t_atom = A_LONG int | A_FLOAT real | A_SYM t_symbol

definition CHILLER_DEFAULT_FFT_SIZE :: nat where
  "CHILLER_DEFAULT_FFT_SIZE = 2048"

fun requested_fft_size :: "t_atom list \<Rightarrow> nat" where
  "requested_fft_size (A_LONG requested_size # argv) =
     (if requested_size \<ge> 512 \<and> requested_size \<le> 8192
         \<and> requested_size AND (requested_size - 1) = 0
      then nat requested_size else CHILLER_DEFAULT_FFT_SIZE)"
| "requested_fft_size argv = CHILLER_DEFAULT_FFT_SIZE"

fun buffer_argument :: "t_atom list \<Rightarrow> t_symbol option" where
  "buffer_argument (a # A_SYM s # argv) = Some s"
| "buffer_argument (A_SYM s # argv) = Some s"
| "buffer_argument argv = None"

text \<open>
  The second argument is the value that \<^verbatim>\<open>std::random_device\<close> supplies as the seed
  of the generator.
\<close>

definition chiller_new :: "'r host \<Rightarrow> 'r \<Rightarrow> t_atom list \<Rightarrow> 'r t_chiller option" where
  "chiller_new h seed argv =
     (let n = requested_fft_size argv in
      do { win \<leftarrow> chiller_generate_window (replicate n 0.0) n;
           let x = \<lparr>buffer_ref = None, buffer_name = [],
                     frozen_spectrum = replicate n 0, window = win,
                     overlap_buffer_l = replicate n 0.0, overlap_buffer_r = replicate n 0.0,
                     fft_buffer = replicate n 0, analysis_buffer = replicate n 0.0,
                     fft_size = n, hop_size = n div 4,
                     position = 0.5, overlap_amount = 4.0, grain_rate = 1.0,
                     phase_randomness = 0.1, amplitude_variation = 0.1,
                     spectrum_captured = False, capturing_spectrum = False,
                     grain_counter = 0, hop_counter = 0, sample_rate = 44100.0,
                     last_position_change_time = 0.0, rng = seed\<rparr>;
           Some (case buffer_argument argv of None \<Rightarrow> x | Some s \<Rightarrow> chiller_set_buffer h x s) })"

section \<open>The object's message table (\<^verbatim>\<open>ext_main\<close>)\<close>

datatype command =
  Set t_symbol | Position real | Overlap real | Rate real | Phaserand real | Ampvar real
  | Freeze | Bang | Notify t_symbol | Dsp64 real | Perform64 nat

datatype response = Silent | Posted report | Audio "real list" "real list"

fun dispatch :: "'r host \<Rightarrow> 'r t_chiller \<Rightarrow> command \<Rightarrow> (response \<times> 'r t_chiller) option" where
  "dispatch h x (Set s) = Some (Silent, chiller_set_buffer h x s)"
| "dispatch h x (Position pos) =
     map_option (\<lambda>(rep, x'). (case rep of None \<Rightarrow> Silent | Some e \<Rightarrow> Posted e, x'))
       (chiller_set_position h x pos)"
| "dispatch h x (Overlap v) = Some (Silent, chiller_set_overlap x v)"
| "dispatch h x (Rate v) = Some (Silent, chiller_set_rate x v)"
| "dispatch h x (Phaserand v) = Some (Silent, chiller_set_phase_rand x v)"
| "dispatch h x (Ampvar v) = Some (Silent, chiller_set_amp_var x v)"
| "dispatch h x Freeze = map_option (\<lambda>(rep, x'). (Posted rep, x')) (chiller_freeze h x)"
| "dispatch h x Bang = Some (Silent, chiller_debug x)"
| "dispatch h x (Notify msg) = Some (Silent, chiller_notify x msg)"
| "dispatch h x (Dsp64 samplerate) = Some (Silent, chiller_dsp64 x samplerate)"
| "dispatch h x (Perform64 sampleframes) =
     map_option (\<lambda>(out_l, out_r, x'). (Audio out_l out_r, x')) (chiller_perform64 h x sampleframes)"

section \<open>Notions used to state and prove the properties\<close>

subsection \<open>The discrete Fourier transform and the stages of the algorithm\<close>

text \<open>Reversal of the lowest \<open>k\<close> bits of a number.\<close>

fun bitrev :: "nat \<Rightarrow> nat \<Rightarrow> nat" where
  "bitrev 0 i = 0"
| "bitrev (Suc k) i = (i mod 2) * 2 ^ k + bitrev k (i div 2)"

text \<open>
  The vector during the reordering loop, when the indices below \<open>m\<close> have been handled:
  an entry has been exchanged with its bit-reversed partner when one of the two indices is
  below \<open>m\<close>.
\<close>

definition partial_rev :: "nat \<Rightarrow> nat \<Rightarrow> 'a list \<Rightarrow> 'a list" where
  "partial_rev k m xs =
     map (\<lambda>t. if t < m \<or> bitrev k t < m then xs ! bitrev k t else xs ! t) [0..<2 ^ k]"

text \<open>
  The vector after the butterflies \<open>j, \<dots>, L - 1\<close> of the block that starts at \<open>i\<close>, for
  half the block length \<open>L\<close> and the stage's root \<open>wl\<close>.
\<close>

definition bfly_part :: "nat \<Rightarrow> complex \<Rightarrow> nat \<Rightarrow> nat \<Rightarrow> complex list \<Rightarrow> complex list" where
  "bfly_part L wl i j d =
     map (\<lambda>t. if i + j \<le> t \<and> t < i + L then d ! t + d ! (t + L) * wl ^ (t - i)
              else if i + L + j \<le> t \<and> t < i + 2 * L then d ! (t - L) - d ! t * wl ^ (t - L - i)
              else d ! t) [0..<length d]"

text \<open>
  Entry \<open>t\<close> after a whole stage with blocks of length \<open>2 * L\<close>, and the vector when the
  blocks that start at \<open>i\<close> or later have been processed.
\<close>

definition stage_val :: "nat \<Rightarrow> complex \<Rightarrow> complex list \<Rightarrow> nat \<Rightarrow> complex" where
  "stage_val L wl d t =
     (if t mod (2 * L) < L then d ! t + d ! (t + L) * wl ^ (t mod (2 * L))
      else d ! (t - L) - d ! t * wl ^ (t mod (2 * L) - L))"

definition blocks_part :: "nat \<Rightarrow> complex \<Rightarrow> nat \<Rightarrow> complex list \<Rightarrow> complex list" where
  "blocks_part L wl i d = map (\<lambda>t. if i \<le> t then stage_val L wl d t else d ! t) [0..<length d]"

text \<open>The root of unity \<open>exp (2\<pi>\<i> / N)\<close> that the transform uses for blocks of length \<open>N\<close>.\<close>

definition twiddle :: "nat \<Rightarrow> complex" where
  "twiddle N = cis (2 * pi / real N)"

text \<open>
  The loop invariant of the stages, for an input \<open>x\<close> of length \<open>2 ^ K\<close>: after \<open>s\<close>
  stages block \<open>b\<close> of length \<open>2 ^ s\<close> holds the transform of the subsequence of \<open>x\<close> with
  stride \<open>2 ^ (K - s)\<close> that starts at the bit reversal of \<open>b\<close>.
\<close>

definition stage_inv :: "nat \<Rightarrow> nat \<Rightarrow> complex list \<Rightarrow> complex list \<Rightarrow> bool" where
  "stage_inv K s x d \<longleftrightarrow>
     length d = 2 ^ K \<and>
     (\<forall>b<2 ^ (K - s). \<forall>k<2 ^ s.
        d ! (b * 2 ^ s + k) = (\<Sum>m<2 ^ s. x ! (m * 2 ^ (K - s) + bitrev (K - s) b) * twiddle (2 ^ s) ^ (m * k)))"

text \<open>The discrete Fourier transform with the sign convention of the source.\<close>

definition dft :: "complex list \<Rightarrow> complex list" where
  "dft x = map (\<lambda>k. \<Sum>m<length x. x ! m * twiddle (length x) ^ (m * k)) [0..<length x]"

subsection \<open>Invariant of the object and well-formed sample sources\<close>

definition valid_fft_size :: "nat \<Rightarrow> bool" where
  "valid_fft_size n \<longleftrightarrow> n \<in> {512, 1024, 2048, 4096, 8192}"

text \<open>
  What the constructor establishes and every command keeps: the size is one of the valid
  powers of two, every vector has that size, the parameters are within their ranges, and a
  spectrum is captured only while a sample source is bound.
\<close>

definition chiller_inv :: "'r t_chiller \<Rightarrow> bool" where
  "chiller_inv x \<longleftrightarrow>
     valid_fft_size (fft_size x) \<and> hop_size x = fft_size x div 4
     \<and> length (frozen_spectrum x) = fft_size x \<and> length (window x) = fft_size x
     \<and> length (overlap_buffer_l x) = fft_size x \<and> length (overlap_buffer_r x) = fft_size x
     \<and> length (fft_buffer x) = fft_size x \<and> length (analysis_buffer x) = fft_size x
     \<and> 0 \<le> position x \<and> position x \<le> 1
     \<and> 1 \<le> overlap_amount x \<and> overlap_amount x \<le> 8
     \<and> 1 / 10 \<le> grain_rate x \<and> grain_rate x \<le> 4
     \<and> 0 \<le> phase_randomness x \<and> phase_randomness x \<le> 1
     \<and> 0 \<le> amplitude_variation x \<and> amplitude_variation x \<le> 1 / 2
     \<and> (spectrum_captured x \<longrightarrow> buffer_ref x \<noteq> None)"

text \<open>
  A sample source whose data can be locked has at least one channel and an array of
  frames times channels samples.  Its frame count is a number that a double holds exactly
  (it is below \<open>2\<^sup>5\<^sup>3\<close>), and when the samples are mixed to mono their magnitude is at most
  \<open>2\<^sup>1\<^sup>2\<^sup>6\<close>, so that the single-precision sum of two of them is finite.
\<close>

definition buffer_ok :: "t_buffer_obj \<Rightarrow> bool" where
  "buffer_ok buffer \<longleftrightarrow>
     (case buffer_locksamples buffer of
        None \<Rightarrow> True
      | Some buffer_samples \<Rightarrow>
          1 \<le> buffer_getchannelcount buffer \<and> 0 \<le> buffer_getframecount buffer
          \<and> int (length buffer_samples) = buffer_getframecount buffer * buffer_getchannelcount buffer
          \<and> buffer_getframecount buffer < 2 ^ 53
          \<and> (buffer_getchannelcount buffer = 1 \<or> (\<forall>s\<in>set buffer_samples. \<bar>s\<bar> \<le> 2 ^ 126)))"

text \<open>A host all of whose sample sources are well formed.\<close>

definition host_ok :: "'r host \<Rightarrow> bool" where
  "host_ok h \<longleftrightarrow> (\<forall>ref buffer. buffer_ref_getobject h ref = Some buffer \<longrightarrow> buffer_ok buffer)"

text \<open>
  The four ways in which a capture request fails: no source bound, source not resolvable,
  sample data inaccessible, fewer frames than the transform size.
\<close>

definition capture_failure :: "'r host \<Rightarrow> 'r t_chiller \<Rightarrow> report option" where
  "capture_failure h x =
     (case buffer_ref x of
        None \<Rightarrow> Some No_buffer_set
      | Some ref \<Rightarrow>
          (case buffer_ref_getobject h ref of
             None \<Rightarrow> Some Buffer_not_found
           | Some buffer \<Rightarrow>
               (case buffer_locksamples buffer of
                  None \<Rightarrow> Some Could_not_access_buffer_data
                | Some buffer_samples \<Rightarrow>
                    if buffer_getframecount buffer < int (fft_size x) then Some Buffer_too_small
                    else None)))"

text \<open>
  The segment of \<open>n\<close> frames that starts at frame \<open>start\<close>: the samples themselves for
  one channel, half of the single-precision sum of the two interleaved entries otherwise.
\<close>

definition segment :: "real list \<Rightarrow> int \<Rightarrow> nat \<Rightarrow> nat \<Rightarrow> real list" where
  "segment buffer_samples buffer_channels start n =
     map (\<lambda>i. if buffer_channels = 1 then buffer_samples ! (start + i)
              else round_float (buffer_samples ! (2 * (start + i))
                                + buffer_samples ! (2 * (start + i) + 1)) / 2)
       [0..<n]"

subsection \<open>Frame of the parameter setters\<close>

text \<open>
  Two states agree on everything but the four tunable parameters that have a setter of their
  own (overlap amount, grain rate, phase randomness, amplitude variation).
\<close>

definition same_engine_state :: "'r t_chiller \<Rightarrow> 'r t_chiller \<Rightarrow> bool" where
  "same_engine_state x y \<longleftrightarrow>
     frozen_spectrum y = frozen_spectrum x \<and> spectrum_captured y = spectrum_captured x
     \<and> capturing_spectrum y = capturing_spectrum x \<and> hop_counter y = hop_counter x
     \<and> overlap_buffer_l y = overlap_buffer_l x \<and> overlap_buffer_r y = overlap_buffer_r x
     \<and> position y = position x \<and> last_position_change_time y = last_position_change_time x
     \<and> buffer_ref y = buffer_ref x \<and> buffer_name y = buffer_name x
     \<and> window y = window x \<and> fft_buffer y = fft_buffer x \<and> analysis_buffer y = analysis_buffer x
     \<and> fft_size y = fft_size x \<and> hop_size y = hop_size x \<and> grain_counter y = grain_counter x
     \<and> sample_rate y = sample_rate x \<and> rng y = rng x"

subsection \<open>Runs\<close>

text \<open>A run of the object: the messages it receives, each with the host as it is then.\<close>

fun run :: "('r host \<times> command) list \<Rightarrow> 'r t_chiller \<Rightarrow> (response list \<times> 'r t_chiller) option" where
  "run [] x = Some ([], x)"
| "run ((h, c) # cs) x =
     do { (r, x1) \<leftarrow> dispatch h x c;
          (rs, x2) \<leftarrow> run cs x1;
          Some (r # rs, x2) }"

text \<open>A response is silent when it is not audio or all its samples are zero.\<close>

definition silent_response :: "response \<Rightarrow> bool" where
  "silent_response r =
     (case r of
        Audio out_l out_r \<Rightarrow> list_all (\<lambda>v. v = 0) out_l \<and> list_all (\<lambda>v. v = 0) out_r
      | _ \<Rightarrow> True)"

subsection \<open>A concrete host and a concrete object\<close>

text \<open>
  A host with one mono source of the given number of frames, bound under every name, and
  the given system time; and the object as the constructor leaves it for the arguments
  \<open>512\<close> and a buffer name.
\<close>

definition example_host :: "int \<Rightarrow> real \<Rightarrow> nat host" where
  "example_host frames time =
     \<lparr>buffer_ref_new = (\<lambda>s. Some 0),
      buffer_ref_getobject = (\<lambda>ref. Some \<lparr>buffer_locksamples = Some (replicate (nat frames) (1 / 2)),
                                          buffer_getframecount = frames,
                                          buffer_getchannelcount = 1\<rparr>),
      systimer_gettime = time,
      phase_dist = (\<lambda>g. (0, g + 1)),
      amp_dist = (\<lambda>g. (0, g + 1))\<rparr>"

definition example_state :: "nat t_chiller" where
  "example_state =
     \<lparr>buffer_ref = Some 0, buffer_name = ''buf'',
      frozen_spectrum = replicate 512 0,
      window = map (\<lambda>i. 1 / 2 * (1 - cos (2 * pi * real i / 511))) [0..<512],
      overlap_buffer_l = replicate 512 0, overlap_buffer_r = replicate 512 0,
      fft_buffer = replicate 512 0, analysis_buffer = replicate 512 0,
      fft_size = 512, hop_size = 128,
      position = 1 / 2, overlap_amount = 4, grain_rate = 1,
      phase_randomness = 1 / 10, amplitude_variation = 1 / 10,
      spectrum_captured = False, capturing_spectrum = False,
      grain_counter = 0, hop_counter = 0, sample_rate = 44100,
      last_position_change_time = 0, rng = 0\<rparr>"

text \<open>
  The concrete object while it plays: a spectrum is captured and the accumulators hold
  what is left of a grain.
\<close>

definition playing_state :: "nat t_chiller" where
  "playing_state =
     example_state\<lparr>spectrum_captured := True,
                   overlap_buffer_l := 1 # 2 # replicate 510 0,
                   overlap_buffer_r := 3 # 4 # replicate 510 0\<rparr>"

text \<open>
  The concrete object with the position that the message \<^verbatim>\<open>position 0.7\<close> stores: the
  double nearest to 0.7, which is \<open>6305039478318694 / 2\<^sup>5\<^sup>3\<close>.  And a host with one stereo
  source of 522 frames, whose interleaved samples are 0, 1, 2, ...
\<close>

definition state_07 :: "nat t_chiller" where
  "state_07 = example_state\<lparr>position := 6305039478318694 / 2 ^ 53\<rparr>"

definition stereo_buffer :: t_buffer_obj where
  "stereo_buffer =
     \<lparr>buffer_locksamples = Some (map real [0..<1044]),
      buffer_getframecount = 522, buffer_getchannelcount = 2\<rparr>"

definition stereo_host :: "nat host" where
  "stereo_host =
     \<lparr>buffer_ref_new = (\<lambda>s. Some 0),
      buffer_ref_getobject = (\<lambda>ref. Some stereo_buffer),
      systimer_gettime = 0,
      phase_dist = (\<lambda>g. (0, g + 1)),
      amp_dist = (\<lambda>g. (0, g + 1))\<rparr>"

section \<open>Theorems\<close>

subsection \<open>The spectral transform computes the discrete Fourier transform\<close>

lemma not_bit_small: "(r::nat) < 2 ^ k \<Longrightarrow> \<not> bit r k"
  by (simp add: bit_iff_odd)

lemma bit_big: "(r::nat) < 2 ^ k \<Longrightarrow> bit (2 ^ k + r) k"
  by (simp add: bit_iff_odd)

lemma and_pow_small: "(r::nat) < 2 ^ k \<Longrightarrow> r AND 2 ^ k = 0"
  by (simp add: and_exp_eq_0_iff_not_bit not_bit_small)

lemma and_pow_big: "(r::nat) < 2 ^ k \<Longrightarrow> (2 ^ k + r) AND 2 ^ k \<noteq> 0"
  by (simp add: and_exp_eq_0_iff_not_bit bit_big)

lemma xor_pow_small: "(r::nat) < 2 ^ k \<Longrightarrow> r XOR 2 ^ k = 2 ^ k + r"
  using flip_bit_eq_xor [of k r] by (simp add: flip_bit_eq_if not_bit_small set_bit_eq)

lemma xor_pow_big:
  assumes "(r::nat) < 2 ^ k"
  shows "(2 ^ k + r) XOR 2 ^ k = r"
proof -
  have "(2 ^ k + r) XOR 2 ^ k = (r XOR 2 ^ k) XOR 2 ^ k"
    by (simp only: xor_pow_small [OF assms])
  also have "\<dots> = r"
    by (simp add: xor.assoc)
  finally show ?thesis .
qed

lemma bitrev_less: "bitrev k i < 2 ^ k"
proof (induction k arbitrary: i)
  case 0
  show ?case by simp
next
  case (Suc k)
  have "i mod 2 = 0 \<or> i mod 2 = 1" by auto
  with Suc [of "i div 2"] show ?case by auto
qed

lemma bit_loop_bitrev:
  "Suc i < 2 ^ Suc k \<Longrightarrow>
   (case bit_loop (bitrev (Suc k) i) (2 ^ k) of (j1, b) \<Rightarrow> j1 XOR b) = bitrev (Suc k) (Suc i)"
proof (induction k arbitrary: i)
  case 0
  then have "i = 0" by simp
  then show ?case by (simp add: bit_loop.simps)
next
  case (Suc k)
  let ?r = "bitrev (Suc k) (i div 2)"
  have r: "?r < 2 ^ Suc k" by (rule bitrev_less)
  show ?case
  proof (cases "even i")
    case True
    then have j: "bitrev (Suc (Suc k)) i = ?r" by (simp del: bitrev.simps(2) add: bitrev.simps(2) [of "Suc k"])
    from True have s: "Suc i mod 2 = 1" "Suc i div 2 = i div 2" by auto
    have "bit_loop ?r (2 ^ Suc k) = (?r, 2 ^ Suc k)"
      using and_pow_small [OF r] by (subst bit_loop.simps) simp
    then show ?thesis
      using xor_pow_small [OF r] s unfolding j
      by (simp del: bitrev.simps(2) add: bitrev.simps(2) [of "Suc k" "Suc i"])
  next
    case False
    then have j: "bitrev (Suc (Suc k)) i = 2 ^ Suc k + ?r"
      by (simp del: bitrev.simps(2) add: bitrev.simps(2) [of "Suc k"] odd_iff_mod_2_eq_one)
    from False have s: "Suc i mod 2 = 0" "Suc i div 2 = Suc (i div 2)" by presburger+
    from False Suc.prems have "Suc (i div 2) < 2 ^ Suc k" by simp presburger
    from Suc.IH [OF this] have ih:
      "(case bit_loop ?r (2 ^ k) of (j1, b) \<Rightarrow> j1 XOR b) = bitrev (Suc k) (Suc (i div 2))" .
    have "bit_loop (2 ^ Suc k + ?r) (2 ^ Suc k) = bit_loop ?r (2 ^ k)"
      using and_pow_big [OF r] xor_pow_big [OF r]
      by (subst bit_loop.simps) (simp add: drop_bit_eq_div)
    then show ?thesis
      using ih s unfolding j
      by (simp del: bitrev.simps(2) add: bitrev.simps(2) [of "Suc k" "Suc i"])
  qed
qed

lemma bitrev_alt:
  "i < 2 ^ Suc k \<Longrightarrow> bitrev (Suc k) i = 2 * bitrev k (i mod 2 ^ k) + i div 2 ^ k"
proof (induction k arbitrary: i)
  case 0
  then show ?case by simp
next
  case (Suc k)
  from Suc.prems have h: "i div 2 < 2 ^ Suc k" by simp
  have m1: "(i mod 2 ^ Suc k) mod 2 = i mod 2"
    by (simp add: mod_mod_cancel)
  have m2: "(i mod 2 ^ Suc k) div 2 = (i div 2) mod 2 ^ k"
    using div_mult2_eq mod_mult2_eq [of i 2 "2 ^ k"] by simp
  have m3: "i div 2 ^ Suc k = (i div 2) div 2 ^ k"
    by (simp add: div_mult2_eq)
  have "bitrev (Suc (Suc k)) i = (i mod 2) * 2 ^ Suc k + bitrev (Suc k) (i div 2)"
    by (rule bitrev.simps(2))
  also have "\<dots> = (i mod 2) * 2 ^ Suc k + (2 * bitrev k ((i div 2) mod 2 ^ k) + (i div 2) div 2 ^ k)"
    by (simp only: Suc.IH [OF h])
  also have "\<dots> = 2 * ((i mod 2) * 2 ^ k + bitrev k ((i div 2) mod 2 ^ k)) + (i div 2) div 2 ^ k"
    by simp
  also have "\<dots> = 2 * bitrev (Suc k) (i mod 2 ^ Suc k) + i div 2 ^ Suc k"
    by (simp only: bitrev.simps(2) [of k "i mod 2 ^ Suc k"] m1 m2 m3)
  finally show ?case .
qed

lemma bitrev_involution: "i < 2 ^ k \<Longrightarrow> bitrev k (bitrev k i) = i"
proof (induction k arbitrary: i)
  case 0
  then show ?case by simp
next
  case (Suc k)
  let ?r = "bitrev k (i div 2)"
  have r: "?r < 2 ^ k" by (rule bitrev_less)
  from Suc.prems have h: "i div 2 < 2 ^ k" by simp
  have c: "i mod 2 = 0 \<or> i mod 2 = 1" by auto
  have j: "bitrev (Suc k) i = (i mod 2) * 2 ^ k + ?r" by simp
  have jm: "((i mod 2) * 2 ^ k + ?r) mod 2 ^ k = ?r" using r by simp
  have jd: "((i mod 2) * 2 ^ k + ?r) div 2 ^ k = i mod 2" using r by simp
  have "bitrev (Suc k) (bitrev (Suc k) i) = 2 * bitrev k ?r + i mod 2"
    using bitrev_alt [OF bitrev_less, of k i] unfolding j jm jd .
  also have "\<dots> = 2 * (i div 2) + i mod 2"
    by (simp only: Suc.IH [OF h])
  also have "\<dots> = i" by simp
  finally show ?case .
qed

lemma bitrev_0 [simp]: "bitrev k 0 = 0"
  by (induction k) simp_all

lemma bitrev_eq_0: "t < 2 ^ k \<Longrightarrow> bitrev k t = 0 \<Longrightarrow> t = 0"
  using bitrev_involution [of t k] by simp

lemma length_partial_rev [simp]: "length (partial_rev k m xs) = 2 ^ k"
  by (simp add: partial_rev_def)

lemma partial_rev_nth:
  "t < 2 ^ k \<Longrightarrow>
   partial_rev k m xs ! t = (if t < m \<or> bitrev k t < m then xs ! bitrev k t else xs ! t)"
  by (simp add: partial_rev_def)

lemma partial_rev_1: "length xs = 2 ^ k \<Longrightarrow> partial_rev k (Suc 0) xs = xs"
  by (rule nth_equalityI) (auto simp: partial_rev_nth dest: bitrev_eq_0)

lemma partial_rev_noswap:
  assumes i: "i < 2 ^ k" and le: "bitrev k i \<le> i"
  shows "partial_rev k (Suc i) xs = partial_rev k i xs"
proof (rule nth_equalityI)
  show "length (partial_rev k (Suc i) xs) = length (partial_rev k i xs)" by simp
next
  fix t assume "t < length (partial_rev k (Suc i) xs)"
  then have t: "t < 2 ^ k" by simp
  have "bitrev k t = i \<Longrightarrow> t = bitrev k i"
    using bitrev_involution [OF t] by simp
  then show "partial_rev k (Suc i) xs ! t = partial_rev k i xs ! t"
    using le t bitrev_involution [OF i]
    by (auto simp: partial_rev_nth less_Suc_eq)
qed

lemma partial_rev_swap:
  assumes i: "i < 2 ^ k" and lt: "i < bitrev k i"
  shows "vswap (partial_rev k i xs) i (bitrev k i) = Some (partial_rev k (Suc i) xs)"
proof -
  let ?j = "bitrev k i"
  let ?p = "partial_rev k i xs"
  have j: "?j < 2 ^ k" by (rule bitrev_less)
  have jj: "bitrev k ?j = i" by (rule bitrev_involution [OF i])
  have pi: "?p ! i = xs ! i" using i lt by (simp add: partial_rev_nth)
  have pj: "?p ! ?j = xs ! ?j" using j lt jj by (simp add: partial_rev_nth)
  have "?p[i := xs ! ?j, ?j := xs ! i] = partial_rev k (Suc i) xs"
  proof (rule nth_equalityI)
    show "length (?p[i := xs ! ?j, ?j := xs ! i]) = length (partial_rev k (Suc i) xs)" by simp
  next
    fix t assume "t < length (?p[i := xs ! ?j, ?j := xs ! i])"
    then have t: "t < 2 ^ k" by simp
    have inj: "bitrev k t = i \<Longrightarrow> t = ?j"
      using bitrev_involution [OF t] by simp
    show "?p[i := xs ! ?j, ?j := xs ! i] ! t = partial_rev k (Suc i) xs ! t"
    proof (cases "t = i")
      case True
      then show ?thesis using i lt by (simp add: partial_rev_nth)
    next
      case ti: False
      show ?thesis
      proof (cases "t = ?j")
        case True
        then show ?thesis using j jj by (simp add: partial_rev_nth)
      next
        case False
        with ti inj have "bitrev k t \<noteq> i" by auto
        with ti False t show ?thesis
          by (simp add: partial_rev_nth less_Suc_eq)
      qed
    qed
  qed
  then show ?thesis
    using i j pi pj by (simp add: vswap_def vget_def vset_def)
qed

lemma bit_reverse_reorder_step:
  "i < n \<Longrightarrow> bit_loop j (drop_bit 1 n) = (j1, b) \<Longrightarrow>
   bit_reverse_reorder n i j data =
     (case (if i < j1 XOR b then vswap data i (j1 XOR b) else Some data) of
        None \<Rightarrow> None
      | Some data' \<Rightarrow> bit_reverse_reorder n (Suc i) (j1 XOR b) data')"
  by (subst bit_reverse_reorder.simps) (auto split: option.splits)

lemma bit_reverse_reorder_partial:
  assumes "length xs = 2 ^ Suc k"
  shows "0 < i \<Longrightarrow> i \<le> 2 ^ Suc k \<Longrightarrow>
    bit_reverse_reorder (2 ^ Suc k) i (bitrev (Suc k) (i - 1)) (partial_rev (Suc k) i xs)
      = Some (partial_rev (Suc k) (2 ^ Suc k) xs)"
proof (induction "2 ^ Suc k - i" arbitrary: i)
  case 0
  then have "i = 2 ^ Suc k" by simp
  then show ?case by (subst bit_reverse_reorder.simps) simp
next
  case (Suc d)
  let ?J = "bitrev (Suc k) i"
  let ?D = "partial_rev (Suc k) i xs"
  from Suc.hyps(2) have i: "i < 2 ^ Suc k" by simp
  from Suc.prems have si: "Suc (i - 1) = i" by simp
  have bl: "(case bit_loop (bitrev (Suc k) (i - 1)) (2 ^ k) of (j1, b) \<Rightarrow> j1 XOR b) = ?J"
    using bit_loop_bitrev [of "i - 1" k] i unfolding si .
  obtain j1 b where jb: "bit_loop (bitrev (Suc k) (i - 1)) (2 ^ k) = (j1, b)"
    by (cases "bit_loop (bitrev (Suc k) (i - 1)) (2 ^ k)")
  from bl have j2: "j1 XOR b = ?J" unfolding jb by simp
  have d: "d = 2 ^ Suc k - Suc i" using Suc.hyps(2) by simp
  have ih: "bit_reverse_reorder (2 ^ Suc k) (Suc i) ?J (partial_rev (Suc k) (Suc i) xs)
      = Some (partial_rev (Suc k) (2 ^ Suc k) xs)"
    using Suc.hyps(1) [OF d] i by simp
  have db: "drop_bit 1 ((2::nat) ^ Suc k) = 2 ^ k" by (simp add: drop_bit_eq_div)
  have jb': "bit_loop (bitrev (Suc k) (i - 1)) (drop_bit 1 (2 ^ Suc k)) = (j1, b)"
    unfolding db by (rule jb)
  have step: "bit_reverse_reorder (2 ^ Suc k) i (bitrev (Suc k) (i - 1)) ?D =
     (case (if i < ?J then vswap ?D i ?J else Some ?D) of
        None \<Rightarrow> None
      | Some data' \<Rightarrow> bit_reverse_reorder (2 ^ Suc k) (Suc i) ?J data')"
    using bit_reverse_reorder_step [OF i jb', of ?D] unfolding j2 .
  show ?case
  proof (cases "i < ?J")
    case True
    show ?thesis
      unfolding step using True
      by (simp only: if_True partial_rev_swap [OF i True] option.case ih)
  next
    case False
    then have "?J \<le> i" by simp
    from partial_rev_noswap [OF i this, of xs]
    have eq: "?D = partial_rev (Suc k) (Suc i) xs" by simp
    show ?thesis
      unfolding step using False
      by (simp only: if_False option.case eq ih)
  qed
qed

lemma bit_reverse_reorder_correct:
  assumes "length xs = 2 ^ Suc k"
  shows "bit_reverse_reorder (length xs) 1 0 xs = Some (map (\<lambda>t. xs ! bitrev (Suc k) t) [0..<2 ^ Suc k])"
proof -
  have "partial_rev (Suc k) (2 ^ Suc k) xs = map (\<lambda>t. xs ! bitrev (Suc k) t) [0..<2 ^ Suc k]"
    by (simp add: partial_rev_def)
  then show ?thesis
    using bit_reverse_reorder_partial [OF assms, of 1] partial_rev_1 [OF assms] assms
    by simp
qed

lemma length_bfly_part [simp]: "length (bfly_part L wl i j d) = length d"
  by (simp add: bfly_part_def)

lemma bfly_part_nth:
  "t < length d \<Longrightarrow> bfly_part L wl i j d ! t =
     (if i + j \<le> t \<and> t < i + L then d ! t + d ! (t + L) * wl ^ (t - i)
      else if i + L + j \<le> t \<and> t < i + 2 * L then d ! (t - L) - d ! t * wl ^ (t - L - i)
      else d ! t)"
  by (simp add: bfly_part_def)

lemma bfly_part_done: "bfly_part L wl i L d = d"
  by (rule nth_equalityI) (auto simp add: bfly_part_nth)

lemma butterfly_Some:
  assumes "i + 2 * L \<le> length d" "j < L"
  shows "butterfly (2 * L) i j w d =
     Some (d[i + j := d ! (i + j) + d ! (i + j + L) * w, i + j + L := d ! (i + j) - d ! (i + j + L) * w])"
  using assms by (simp add: butterfly_def vget_def vset_def)

lemma bfly_part_step:
  assumes len: "i + 2 * L \<le> length d" and j: "j < L"
  shows "bfly_part L wl i (Suc j)
           (d[i + j := d ! (i + j) + d ! (i + j + L) * wl ^ j,
              i + j + L := d ! (i + j) - d ! (i + j + L) * wl ^ j])
         = bfly_part L wl i j d" (is "bfly_part L wl i (Suc j) ?d1 = _")
proof (rule nth_equalityI)
  show "length (bfly_part L wl i (Suc j) ?d1) = length (bfly_part L wl i j d)" by simp
next
  fix t assume "t < length (bfly_part L wl i (Suc j) ?d1)"
  then have t: "t < length d" by simp
  have t1: "t < length ?d1" using t by simp
  consider (a) "t = i + j" | (b) "t = i + j + L" | (c) "i + Suc j \<le> t" "t < i + L"
    | (d) "i + L + Suc j \<le> t" "t < i + 2 * L" | (e) "t < i + j \<or> (i + L \<le> t \<and> t < i + L + j) \<or> i + 2 * L \<le> t"
    by linarith
  then show "bfly_part L wl i (Suc j) ?d1 ! t = bfly_part L wl i j d ! t"
  proof cases
    case a
    then show ?thesis using len j t by (simp add: bfly_part_nth)
  next
    case b
    then show ?thesis using len j t by (simp add: bfly_part_nth)
  next
    case c
    then show ?thesis using len j t by (simp add: bfly_part_nth)
  next
    case d
    then show ?thesis using len j t by (simp add: bfly_part_nth)
  next
    case e
    then show ?thesis using len j t by (auto simp add: bfly_part_nth)
  qed
qed

lemma fft_butterflies_part:
  "i + 2 * L \<le> length d \<Longrightarrow> j \<le> L \<Longrightarrow> fft_butterflies (2 * L) wl i j (wl ^ j) d = Some (bfly_part L wl i j d)"
proof (induction "L - j" arbitrary: j d rule: less_induct)
  case less
  show ?case
  proof (cases "j < L")
    case False
    with less.prems have "j = L" by simp
    then show ?thesis
      by (subst fft_butterflies.simps) (simp add: bfly_part_done)
  next
    case True
    let ?d1 = "d[i + j := d ! (i + j) + d ! (i + j + L) * wl ^ j,
              i + j + L := d ! (i + j) - d ! (i + j + L) * wl ^ j]"
    have "fft_butterflies (2 * L) wl i (Suc j) (wl ^ Suc j) ?d1 = Some (bfly_part L wl i (Suc j) ?d1)"
      using less.hyps [of "Suc j" ?d1] True less.prems(1) by simp
    then show ?thesis
      using True bfly_part_step [OF less.prems(1) True, of wl] butterfly_Some [OF less.prems(1) True, of "wl ^ j"]
      by (subst fft_butterflies.simps) (simp add: mult.commute)
  qed
qed

lemma length_blocks_part [simp]: "length (blocks_part L wl i d) = length d"
  by (simp add: blocks_part_def)

lemma blocks_part_nth:
  "t < length d \<Longrightarrow> blocks_part L wl i d ! t = (if i \<le> t then stage_val L wl d t else d ! t)"
  by (simp add: blocks_part_def)

lemma blocks_part_done: "length d \<le> i \<Longrightarrow> blocks_part L wl i d = d"
  by (rule nth_equalityI) (auto simp add: blocks_part_nth)

lemma block_mod:
  assumes "b * P \<le> t" "t < Suc b * P"
  shows "t mod P = t - b * (P::nat)"
proof -
  from assms(1) obtain r where r: "t = b * P + r" using le_Suc_ex by blast
  with assms(2) have "r < P" by simp
  with r show ?thesis by simp
qed

lemma block_lower:
  assumes "Suc b * P \<le> t" "L \<le> t mod P" "0 < (P::nat)"
  shows "Suc b * P \<le> t - L"
proof -
  from assms(1,3) have "Suc b \<le> t div P"
    by (simp add: less_eq_div_iff_mult_less_eq)
  then have "Suc b * P \<le> (t div P) * P" by (rule mult_le_mono1)
  moreover have "t = (t div P) * P + t mod P" by simp
  ultimately show ?thesis using assms(2) by linarith
qed

lemma block_upper:
  assumes "t < B * P" "t mod P < L" "P = 2 * (L::nat)"
  shows "t + L < B * P"
proof -
  from assms have P: "0 < P" by simp
  with assms(1) have "t div P < B" by (simp add: div_less_iff_less_mult)
  then have "Suc (t div P) * P \<le> B * P" by (intro mult_le_mono1) simp
  moreover have "t = (t div P) * P + t mod P" by simp
  ultimately show ?thesis using assms(2,3) by (simp add: algebra_simps)
qed

lemma blocks_part_step:
  assumes L: "0 < L" and n: "length d = B * (2 * L)" and b: "b < B"
  shows "blocks_part L wl (Suc b * (2 * L)) (bfly_part L wl (b * (2 * L)) 0 d)
         = blocks_part L wl (b * (2 * L)) d" (is "blocks_part L wl ?i' ?d1 = blocks_part L wl ?i d")
proof (rule nth_equalityI)
  show "length (blocks_part L wl ?i' ?d1) = length (blocks_part L wl ?i d)" by simp
next
  fix t assume "t < length (blocks_part L wl ?i' ?d1)"
  then have t: "t < length d" by simp
  have P: "0 < 2 * L" using L by simp
  consider (lo) "t < ?i" | (mid) "?i \<le> t" "t < ?i'" | (hi) "?i' \<le> t" by linarith
  then show "blocks_part L wl ?i' ?d1 ! t = blocks_part L wl ?i d ! t"
  proof cases
    case lo
    then show ?thesis using t by (simp add: blocks_part_nth bfly_part_nth)
  next
    case mid
    have m: "t mod (2 * L) = t - ?i" using block_mod [OF mid] .
    from mid have "\<not> ?i' \<le> t" by simp
    then have "blocks_part L wl ?i' ?d1 ! t = ?d1 ! t" using t by (simp add: blocks_part_nth)
    also have "\<dots> = stage_val L wl d t"
    proof (cases "t < ?i + L")
      case True
      then have "t mod (2 * L) < L" using m mid by simp
      then show ?thesis using t mid m True by (simp add: bfly_part_nth stage_val_def)
    next
      case False
      then have ge: "\<not> t mod (2 * L) < L" using m mid by simp
      have e: "t - L - ?i = t mod (2 * L) - L" using m by simp
      from False mid have "?i + L + 0 \<le> t \<and> t < ?i + 2 * L" by simp
      then show ?thesis using t False ge e by (simp add: bfly_part_nth stage_val_def)
    qed
    also have "\<dots> = blocks_part L wl ?i d ! t" using t mid by (simp add: blocks_part_nth)
    finally show ?thesis .
  next
    case hi
    then have i: "?i \<le> t" by simp
    have same: "\<And>s. ?i' \<le> s \<Longrightarrow> s < length d \<Longrightarrow> ?d1 ! s = d ! s"
      by (simp add: bfly_part_nth)
    have "stage_val L wl ?d1 t = stage_val L wl d t"
    proof (cases "t mod (2 * L) < L")
      case True
      from t n have "t < B * (2 * L)" by simp
      from block_upper [OF this True] have tl: "t + L < length d" using n by simp
      from hi have "?i' \<le> t + L" by simp
      from same [OF this tl] same [OF hi t] True show ?thesis by (simp add: stage_val_def)
    next
      case False
      then have "L \<le> t mod (2 * L)" by simp
      from block_lower [OF hi this P] have lo: "?i' \<le> t - L" .
      have "t - L < length d" using t by simp
      from same [OF lo this] same [OF hi t] False show ?thesis by (simp add: stage_val_def)
    qed
    then show ?thesis using t hi i by (simp add: blocks_part_nth)
  qed
qed

lemma fft_blocks_part:
  assumes L: "0 < L"
  shows "length d = B * (2 * L) \<Longrightarrow> b \<le> B \<Longrightarrow>
    fft_blocks (B * (2 * L)) (2 * L) wl (b * (2 * L)) d = Some (blocks_part L wl (b * (2 * L)) d)"
proof (induction "B - b" arbitrary: b d rule: less_induct)
  case less
  show ?case
  proof (cases "b < B")
    case False
    with less.prems have "b = B" by simp
    then show ?thesis
      using less.prems(1) by (subst fft_blocks.simps) (simp add: blocks_part_done)
  next
    case True
    let ?d1 = "bfly_part L wl (b * (2 * L)) 0 d"
    from True have "Suc b * (2 * L) \<le> B * (2 * L)" by (intro mult_le_mono1) simp
    then have fit: "b * (2 * L) + 2 * L \<le> length d" using less.prems(1) by simp
    from True L have lt: "b * (2 * L) < B * (2 * L)" by simp
    have inner: "fft_butterflies (2 * L) wl (b * (2 * L)) 0 1 d = Some ?d1"
      using fft_butterflies_part [OF fit, of 0 wl] by simp
    have "fft_blocks (B * (2 * L)) (2 * L) wl (Suc b * (2 * L)) ?d1
        = Some (blocks_part L wl (Suc b * (2 * L)) ?d1)"
      using less.hyps [of "Suc b" ?d1] True less.prems(1) by simp
    then have rest: "fft_blocks (B * (2 * L)) (2 * L) wl (b * (2 * L) + 2 * L) ?d1
        = Some (blocks_part L wl (b * (2 * L)) d)"
      using blocks_part_step [OF L less.prems(1) True, of wl] by (simp add: add.commute)
    show ?thesis
      by (subst fft_blocks.simps) (simp only: lt if_True inner bind.bind_lunit rest)
  qed
qed

lemma fft_blocks_stage:
  assumes "0 < L" "length d = B * (2 * L)"
  shows "fft_blocks (length d) (2 * L) wl 0 d = Some (map (stage_val L wl d) [0..<length d])"
proof -
  have "blocks_part L wl 0 d = map (stage_val L wl d) [0..<length d]"
    by (simp add: blocks_part_def)
  then show ?thesis
    using fft_blocks_part [OF assms(1) assms(2), of 0 wl] assms(2) by simp
qed

lemma twiddle_code: "Complex (cos (2 * pi / real N)) (sin (2 * pi / real N)) = twiddle N"
  by (simp add: twiddle_def complex_eq_iff)

lemma twiddle_pow: "twiddle N ^ e = cis (real e * (2 * pi / real N))"
  by (simp add: twiddle_def DeMoivre)

lemma twiddle_double: "0 < L \<Longrightarrow> twiddle (2 * L) ^ (2 * e) = twiddle L ^ e"
  by (simp add: twiddle_pow mult_ac)

lemma twiddle_half: "0 < L \<Longrightarrow> twiddle (2 * L) ^ L = - 1"
  by (simp add: twiddle_pow)

lemma twiddle_full: "0 < L \<Longrightarrow> twiddle L ^ L = 1"
  by (simp add: twiddle_pow)

lemma sum_even_odd:
  fixes f :: "nat \<Rightarrow> complex"
  shows "(\<Sum>m<2 * L. f m) = (\<Sum>m<L. f (2 * m)) + (\<Sum>m<L. f (2 * m + 1))"
  by (induction L) (simp_all add: algebra_simps)

lemma dft_split_lower:
  assumes "0 < L"
  shows "(\<Sum>m<2 * L. f m * twiddle (2 * L) ^ (m * k))
       = (\<Sum>m<L. f (2 * m) * twiddle L ^ (m * k)) + (\<Sum>m<L. f (2 * m + 1) * twiddle L ^ (m * k)) * twiddle (2 * L) ^ k"
proof -
  have e: "\<And>m. twiddle (2 * L) ^ (2 * m * k) = twiddle L ^ (m * k)"
    using twiddle_double [OF assms] by (simp add: mult.assoc)
  have o: "\<And>m. twiddle (2 * L) ^ ((2 * m + 1) * k) = twiddle L ^ (m * k) * twiddle (2 * L) ^ k"
    using e by (simp add: algebra_simps power_add)
  show ?thesis
    unfolding sum_even_odd e o by (simp add: sum_distrib_right mult.assoc)
qed

lemma dft_split_upper:
  assumes "0 < L"
  shows "(\<Sum>m<2 * L. f m * twiddle (2 * L) ^ (m * (k + L)))
       = (\<Sum>m<L. f (2 * m) * twiddle L ^ (m * k)) - (\<Sum>m<L. f (2 * m + 1) * twiddle L ^ (m * k)) * twiddle (2 * L) ^ k"
proof -
  have e: "\<And>m. twiddle (2 * L) ^ (2 * m * (k + L)) = twiddle L ^ (m * k)"
  proof -
    fix m
    have "twiddle (2 * L) ^ (2 * m * (k + L)) = twiddle L ^ (m * (k + L))"
      using twiddle_double [OF assms, of "m * (k + L)"] by (simp add: mult.assoc)
    also have "\<dots> = twiddle L ^ (m * k) * (twiddle L ^ L) ^ m"
      by (simp add: algebra_simps power_add power_mult)
    finally show "twiddle (2 * L) ^ (2 * m * (k + L)) = twiddle L ^ (m * k)"
      by (simp add: twiddle_full [OF assms])
  qed
  have o: "\<And>m. twiddle (2 * L) ^ ((2 * m + 1) * (k + L)) = - (twiddle L ^ (m * k) * twiddle (2 * L) ^ k)"
  proof -
    fix m
    have "twiddle (2 * L) ^ ((2 * m + 1) * (k + L))
        = twiddle (2 * L) ^ (2 * m * (k + L)) * (twiddle (2 * L) ^ k * twiddle (2 * L) ^ L)"
      by (simp add: algebra_simps power_add)
    then show "twiddle (2 * L) ^ ((2 * m + 1) * (k + L)) = - (twiddle L ^ (m * k) * twiddle (2 * L) ^ k)"
      by (simp add: e twiddle_half [OF assms])
  qed
  show ?thesis
    unfolding sum_even_odd e o by (simp add: sum_distrib_right mult.assoc sum_negf)
qed

lemma stage_inv_step:
  assumes s: "s < K" and inv: "stage_inv K s x d"
  shows "stage_inv K (Suc s) x (map (stage_val (2 ^ s) (twiddle (2 ^ Suc s)) d) [0..<length d])"
proof -
  define L :: nat where "L = 2 ^ s"
  define M :: nat where "M = 2 ^ (K - Suc s)"
  have L: "0 < L" by (simp add: L_def)
  have Ks: "K - s = Suc (K - Suc s)" using s by simp
  have M2: "2 ^ (K - s) = 2 * M" by (simp add: Ks M_def)
  have n: "length d = 2 ^ K" using inv by (simp add: stage_inv_def)
  have "(2::nat) ^ K = 2 ^ (Suc s + (K - Suc s))" using s by simp
  then have nLM: "(2::nat) ^ K = M * (2 * L)" by (simp only: power_add L_def M_def) simp
  have old: "\<And>b k. b < 2 * M \<Longrightarrow> k < L \<Longrightarrow>
      d ! (b * L + k) = (\<Sum>m<L. x ! (m * (2 * M) + bitrev (Suc (K - Suc s)) b) * twiddle L ^ (m * k))"
    using inv by (simp add: stage_inv_def L_def flip: M2 Ks del: bitrev.simps)
  have "\<forall>b<M. \<forall>k<2 * L.
      map (stage_val L (twiddle (2 * L)) d) [0..<length d] ! (b * (2 * L) + k)
        = (\<Sum>m<2 * L. x ! (m * M + bitrev (K - Suc s) b) * twiddle (2 * L) ^ (m * k))"
  proof (intro allI impI)
    fix b k assume b: "b < M" and k: "k < 2 * L"
    let ?t = "b * (2 * L) + k"
    let ?r = "bitrev (K - Suc s) b"
    let ?f = "\<lambda>m. x ! (m * M + ?r)"
    from b have "Suc b * (2 * L) \<le> M * (2 * L)" by (intro mult_le_mono1) simp
    with k have t: "?t < length d" by (simp add: n nLM)
    have tm: "?t mod (2 * L) = k" using k by simp
    have b0: "2 * b < 2 * M" and b1: "2 * b + 1 < 2 * M" using b by simp_all
    have r0: "bitrev (Suc (K - Suc s)) (2 * b) = ?r" by simp
    have r1: "bitrev (Suc (K - Suc s)) (2 * b + 1) = M + ?r" by (simp add: M_def)
    have A: "\<And>k'. k' < L \<Longrightarrow> d ! (b * (2 * L) + k') = (\<Sum>m<L. ?f (2 * m) * twiddle L ^ (m * k'))"
      using old [OF b0] unfolding r0 by (simp add: algebra_simps)
    have B: "\<And>k'. k' < L \<Longrightarrow> d ! (b * (2 * L) + k' + L) = (\<Sum>m<L. ?f (2 * m + 1) * twiddle L ^ (m * k'))"
      using old [OF b1] unfolding r1 by (simp add: algebra_simps)
    have "stage_val L (twiddle (2 * L)) d ?t = (\<Sum>m<2 * L. ?f m * twiddle (2 * L) ^ (m * k))"
    proof (cases "k < L")
      case True
      have "stage_val L (twiddle (2 * L)) d ?t = d ! ?t + d ! (?t + L) * twiddle (2 * L) ^ k"
        using True by (simp only: stage_val_def tm if_True)
      then show ?thesis
        unfolding dft_split_lower [OF L] A [OF True] B [OF True] .
    next
      case False
      define k' where "k' = k - L"
      have k': "k = k' + L" "k' < L" using False k by (simp_all add: k'_def)
      have "stage_val L (twiddle (2 * L)) d ?t = d ! (?t - L) - d ! ?t * twiddle (2 * L) ^ (k - L)"
        using False by (simp only: stage_val_def tm if_False)
      also have "?t - L = b * (2 * L) + k'" using k' by simp
      also have "?t = b * (2 * L) + k' + L" using k' by simp
      also have "k - L = k'" by (simp add: k'_def)
      finally show ?thesis
        unfolding k'(1) dft_split_upper [OF L] A [OF k'(2)] B [OF k'(2)] by (simp add: add.assoc)
    qed
    then show "map (stage_val L (twiddle (2 * L)) d) [0..<length d] ! ?t
        = (\<Sum>m<2 * L. ?f m * twiddle (2 * L) ^ (m * k))"
      using t by simp
  qed
  then show ?thesis
    using n by (simp add: stage_inv_def L_def M_def)
qed

lemma length_dft [simp]: "length (dft x) = length x"
  by (simp add: dft_def)

lemma dft_nth: "k < length x \<Longrightarrow> dft x ! k = (\<Sum>m<length x. x ! m * twiddle (length x) ^ (m * k))"
  by (simp add: dft_def)

lemma push_bit_1_pow: "push_bit 1 ((2::nat) ^ s) = 2 ^ Suc s"
  by (simp add: push_bit_eq_mult)

lemma fft_stages_inv:
  "s \<le> K \<Longrightarrow> stage_inv K s x d \<Longrightarrow>
   \<exists>d'. fft_stages (2 ^ K) (2 ^ Suc s) d = Some d' \<and> stage_inv K K x d'"
proof (induction "K - s" arbitrary: s d rule: less_induct)
  case less
  show ?case
  proof (cases "s < K")
    case False
    with less.prems have "s = K" by simp
    then show ?thesis
      using less.prems(2) by (subst fft_stages.simps) simp
  next
    case True
    let ?d1 = "map (stage_val (2 ^ s) (twiddle (2 ^ Suc s)) d) [0..<length d]"
    have n: "length d = 2 ^ K" using less.prems(2) by (simp add: stage_inv_def)
    have "(2::nat) ^ K = 2 ^ (K - Suc s + Suc s)" using True by simp
    then have nB: "(2::nat) ^ K = 2 ^ (K - Suc s) * (2 * 2 ^ s)"
      by (simp only: power_add) simp
    have le: "(2::nat) ^ Suc s \<le> 2 ^ K" using True by (intro power_increasing) simp_all
    have "fft_blocks (length d) (2 * 2 ^ s) (twiddle (2 * 2 ^ s)) 0 d
        = Some (map (stage_val (2 ^ s) (twiddle (2 * 2 ^ s)) d) [0..<length d])"
      by (rule fft_blocks_stage [where B = "2 ^ (K - Suc s)"]) (simp_all add: n nB)
    then have blocks: "fft_blocks (2 ^ K) (2 ^ Suc s) (twiddle (2 ^ Suc s)) 0 d = Some ?d1"
      by (simp add: n)
    from stage_inv_step [OF True less.prems(2)] have inv1: "stage_inv K (Suc s) x ?d1" .
    have m: "K - Suc s < K - s" and sk: "Suc s \<le> K" using True by simp_all
    from less.hyps [OF m sk inv1]
    obtain d' where d': "fft_stages (2 ^ K) (2 ^ Suc (Suc s)) ?d1 = Some d'" "stage_inv K K x d'"
      by blast
    have "fft_stages (2 ^ K) (2 ^ Suc s) d = Some d'"
      by (subst fft_stages.simps)
        (simp only: le if_True twiddle_code blocks bind.bind_lunit push_bit_1_pow d'(1))
    with d'(2) show ?thesis by blast
  qed
qed

lemma stage_inv_final:
  assumes "stage_inv K K x d" "length x = 2 ^ K"
  shows "d = dft x"
proof (rule nth_equalityI)
  show "length d = length (dft x)" using assms by (simp add: stage_inv_def)
next
  fix k assume "k < length d"
  then have k: "k < 2 ^ K" using assms by (simp add: stage_inv_def)
  from assms(1) k have "d ! (0 * 2 ^ K + k) = (\<Sum>m<2 ^ K. x ! (m * 2 ^ (K - K) + bitrev (K - K) 0) * twiddle (2 ^ K) ^ (m * k))"
    unfolding stage_inv_def by (elim conjE allE [of _ 0] allE [of _ k] impE) simp_all
  then show "d ! k = dft x ! k" using k assms(2) by (simp add: dft_nth)
qed

lemma stage_inv_initial:
  assumes "length x = 2 ^ K"
  shows "stage_inv K 0 x (map (\<lambda>t. x ! bitrev K t) [0..<2 ^ K])"
  by (simp add: stage_inv_def)

theorem chiller_fft_dft:
  assumes "length x = 2 ^ K"
  shows "chiller_fft x = Some (dft x)"
proof (cases K)
  case 0
  with assms have l: "length x = 1" by simp
  then obtain a where x: "x = [a]" by (cases x) auto
  show ?thesis unfolding x by (simp add: chiller_fft_def dft_def)
next
  case (Suc k)
  let ?d0 = "map (\<lambda>t. x ! bitrev K t) [0..<2 ^ K]"
  have "(1::nat) < 2 ^ K" unfolding Suc by (rule one_less_power) simp_all
  then have n: "\<not> length x \<le> 1" using assms by simp
  have br: "bit_reverse_reorder (length x) 1 0 x = Some ?d0"
    using bit_reverse_reorder_correct [of x k] assms Suc by simp
  from fft_stages_inv [of 0 K x ?d0] stage_inv_initial [OF assms]
  obtain d' where d': "fft_stages (2 ^ K) (2 ^ Suc 0) ?d0 = Some d'" "stage_inv K K x d'" by auto
  from stage_inv_final [OF d'(2) assms] d'(1) have "fft_stages (length x) 2 ?d0 = Some (dft x)"
    using assms by simp
  then show ?thesis
    using n br by (simp add: chiller_fft_def Let_def)
qed

lemma cis_eq_1_D:
  assumes "cis a = 1"
  shows "\<exists>j::int. a = real_of_int j * 2 * pi"
proof -
  from assms have "cos a = 1" by (simp add: complex_eq_iff)
  then show ?thesis by (simp add: cos_one_2pi_int)
qed

lemma twiddle_diff_neq_1:
  assumes "m < n" "t < n" "m \<noteq> t"
  shows "cis (2 * pi * (real m - real t) / real n) \<noteq> 1"
proof
  assume "cis (2 * pi * (real m - real t) / real n) = 1"
  then obtain j :: int where j: "2 * pi * (real m - real t) / real n = real_of_int j * 2 * pi"
    using cis_eq_1_D by blast
  have n: "0 < real n" using assms by simp
  from j have "(2 * pi) * ((real m - real t) / real n) = (2 * pi) * real_of_int j"
    by (simp add: algebra_simps)
  then have "(real m - real t) / real n = real_of_int j"
    by (simp only: mult_cancel_left) simp
  then have "real m - real t = real_of_int j * real n" using n by (simp add: field_simps)
  then have "real_of_int (int m - int t) = real_of_int (j * int n)" by simp
  then have e: "int m - int t = j * int n" by (simp only: of_int_eq_iff)
  have "\<bar>int m - int t\<bar> < int n" using assms by simp
  with e have "\<bar>j\<bar> * int n < 1 * int n" by (simp add: abs_mult)
  then have "\<bar>j\<bar> < 1" by (simp only: mult_less_cancel_right)
  then have "j = 0" by simp
  with e assms(3) show False by simp
qed

lemma twiddle_orth:
  assumes "m < n" "t < n"
  shows "(\<Sum>k<n. twiddle n ^ (m * k) * cnj (twiddle n) ^ (k * t)) = (if m = t then of_nat n else 0)"
proof -
  define z where "z = cis (2 * pi * (real m - real t) / real n)"
  have n: "0 < n" using assms by simp
  have "\<And>k. twiddle n ^ (m * k) * cnj (twiddle n) ^ (k * t) = z ^ k"
  proof -
    fix k
    have a: "real (m * k) * (2 * pi / real n) + real (k * t) * - (2 * pi / real n)
        = real k * (2 * pi * (real m - real t) / real n)"
      by (simp add: algebra_simps diff_divide_distrib)
    have "twiddle n ^ (m * k) * cnj (twiddle n) ^ (k * t)
        = cis (real (m * k) * (2 * pi / real n) + real (k * t) * - (2 * pi / real n))"
      by (simp only: twiddle_def cis_cnj DeMoivre cis_mult)
    also have "\<dots> = z ^ k"
      by (simp only: a z_def DeMoivre)
    finally show "twiddle n ^ (m * k) * cnj (twiddle n) ^ (k * t) = z ^ k" .
  qed
  then have s: "(\<Sum>k<n. twiddle n ^ (m * k) * cnj (twiddle n) ^ (k * t)) = (\<Sum>k<n. z ^ k)" by simp
  show ?thesis
  proof (cases "m = t")
    case True
    then have "z = 1" by (simp add: z_def)
    with s True show ?thesis by simp
  next
    case False
    have z1: "z \<noteq> 1" unfolding z_def by (rule twiddle_diff_neq_1 [OF assms False])
    have "z ^ n = cis (2 * pi * (real m - real t))"
      using n by (simp add: z_def DeMoivre)
    also have "\<dots> = cis (2 * pi * real m) * cis (- (2 * pi * real t))"
      by (simp add: cis_mult algebra_simps)
    also have "\<dots> = 1" by (simp flip: cis_cnj)
    finally have "z ^ n = 1" .
    with geometric_sum [OF z1, of n] s False show ?thesis by simp
  qed
qed

lemma idft_dft:
  assumes "0 < length x"
  shows "map (\<lambda>z. cnj z / of_nat (length x)) (dft (map cnj (dft x))) = x"
proof (rule nth_equalityI)
  show "length (map (\<lambda>z. cnj z / of_nat (length x)) (dft (map cnj (dft x)))) = length x" by simp
next
  fix t assume "t < length (map (\<lambda>z. cnj z / of_nat (length x)) (dft (map cnj (dft x))))"
  then have t: "t < length x" by simp
  let ?n = "length x"
  let ?w = "twiddle ?n"
  have "cnj (dft (map cnj (dft x)) ! t) = (\<Sum>k<?n. cnj (cnj (dft x ! k) * ?w ^ (k * t)))"
    using t by (simp add: dft_nth)
  also have "\<dots> = (\<Sum>k<?n. (\<Sum>m<?n. x ! m * ?w ^ (m * k)) * cnj ?w ^ (k * t))"
    by (simp add: dft_nth)
  also have "\<dots> = (\<Sum>k<?n. \<Sum>m<?n. x ! m * (?w ^ (m * k) * cnj ?w ^ (k * t)))"
    by (simp add: sum_distrib_right mult.assoc)
  also have "\<dots> = (\<Sum>m<?n. \<Sum>k<?n. x ! m * (?w ^ (m * k) * cnj ?w ^ (k * t)))"
    by (rule sum.swap)
  also have "\<dots> = (\<Sum>m<?n. x ! m * (\<Sum>k<?n. ?w ^ (m * k) * cnj ?w ^ (k * t)))"
    by (simp add: sum_distrib_left)
  also have "\<dots> = (\<Sum>m<?n. x ! m * (if m = t then of_nat ?n else 0))"
    by (rule sum.cong) (simp_all add: twiddle_orth t)
  also have "\<dots> = (\<Sum>m<?n. if m = t then x ! t * of_nat ?n else 0)"
    by (rule sum.cong) simp_all
  also have "\<dots> = x ! t * of_nat ?n"
    using t by (simp add: sum.delta')
  finally have "cnj (dft (map cnj (dft x)) ! t) = x ! t * of_nat ?n" .
  then show "map (\<lambda>z. cnj z / of_nat (length x)) (dft (map cnj (dft x))) ! t = x ! t"
    using t assms by simp
qed


text \<open>
  C1.  For every complex sequence \<open>x\<close> whose length \<open>N\<close> is a power of two (in particular
  for \<open>512 \<le> N \<le> 8192\<close>), the inverse transform is the composition of conjugating every
  element, the forward transform, and conjugating and dividing by \<open>N\<close>; and the inverse
  transform applied to the forward transform of \<open>x\<close> returns \<open>x\<close>.  Both transforms return
  a result: no access leaves the vector and every loop ends.  Numbers are exact reals here,
  so the round trip is exact.
\<close>

theorem ifft_fft_roundtrip:
  assumes "length x = 2 ^ K"
  shows "chiller_ifft x
           = Option.bind (chiller_fft (map cnj x)) (\<lambda>d. Some (map (\<lambda>z. cnj z / of_nat (length x)) d))
         \<and> (\<exists>y. chiller_fft x = Some y \<and> length y = length x \<and> chiller_ifft y = Some x)"
proof -
  have c: "length (map cnj x) = 2 ^ K" using assms by simp
  have l: "length (map cnj (dft x)) = 2 ^ K" using assms by simp
  have "0 < length x" using assms by simp
  from idft_dft [OF this] have "chiller_ifft (dft x) = Some x"
    by (simp add: chiller_ifft_def chiller_fft_dft [OF l])
  then show ?thesis
    by (simp add: chiller_fft_dft [OF assms] chiller_ifft_def chiller_fft_dft [OF c])
qed

theorem ifft_fft_roundtrip_witness:
  "length (replicate 512 (0::complex)) = 2 ^ 9
   \<and> (\<exists>y. chiller_fft (replicate 512 0) = Some y \<and> length y = 512
          \<and> chiller_ifft y = Some (replicate 512 0))"
  using ifft_fft_roundtrip [of "replicate 512 0" 9] by simp

subsection \<open>Parameter setters\<close>

lemma CLAMP_range: "lo \<le> hi \<Longrightarrow> lo \<le> CLAMP a lo hi \<and> CLAMP a lo hi \<le> hi"
  by (simp add: CLAMP_def)

text \<open>
  C10.  Each of the overlap, rate, phase-randomness and amplitude-variation setters writes
  only its own parameter field, with the argument clamped to the parameter's range; whatever
  the argument is, the frozen spectrum, the captured and capturing flags, the hop counter,
  the overlap accumulators, the position, the time of the last position change and all the
  remaining fields keep their values, and so do the other three parameters.  The setters
  report nothing: no capture runs.
\<close>

theorem setters_frame:
  fixes x :: "'r t_chiller"
  shows "chiller_set_overlap x v = x\<lparr>overlap_amount := CLAMP v 1 8\<rparr>
   \<and> chiller_set_rate x v = x\<lparr>grain_rate := CLAMP v (1 / 10) 4\<rparr>
   \<and> chiller_set_phase_rand x v = x\<lparr>phase_randomness := CLAMP v 0 1\<rparr>
   \<and> chiller_set_amp_var x v = x\<lparr>amplitude_variation := CLAMP v 0 (1 / 2)\<rparr>
   \<and> same_engine_state x (chiller_set_overlap x v)
   \<and> same_engine_state x (chiller_set_rate x v)
   \<and> same_engine_state x (chiller_set_phase_rand x v)
   \<and> same_engine_state x (chiller_set_amp_var x v)
   \<and> 1 \<le> overlap_amount (chiller_set_overlap x v) \<and> overlap_amount (chiller_set_overlap x v) \<le> 8
   \<and> 1 / 10 \<le> grain_rate (chiller_set_rate x v) \<and> grain_rate (chiller_set_rate x v) \<le> 4
   \<and> 0 \<le> phase_randomness (chiller_set_phase_rand x v)
   \<and> phase_randomness (chiller_set_phase_rand x v) \<le> 1
   \<and> 0 \<le> amplitude_variation (chiller_set_amp_var x v)
   \<and> amplitude_variation (chiller_set_amp_var x v) \<le> 1 / 2
   \<and> dispatch h x (Overlap v) = Some (Silent, chiller_set_overlap x v)
   \<and> dispatch h x (Rate v) = Some (Silent, chiller_set_rate x v)
   \<and> dispatch h x (Phaserand v) = Some (Silent, chiller_set_phase_rand x v)
   \<and> dispatch h x (Ampvar v) = Some (Silent, chiller_set_amp_var x v)"
  by (simp add: chiller_set_overlap_def chiller_set_rate_def chiller_set_phase_rand_def
      chiller_set_amp_var_def CLAMP_def same_engine_state_def)

subsection \<open>Window generator\<close>

lemma hann_Some:
  "2 \<le> sz \<Longrightarrow> hann i sz = Some (1 / 2 * (1 - cos (2 * pi * real i / real (sz - 1))))"
  by (simp add: hann_def fdiv_def of_nat_diff)

lemma generate_window_loop_part:
  assumes sz: "2 \<le> sz"
  shows "sz \<le> length win \<Longrightarrow> i \<le> sz \<Longrightarrow>
    generate_window_loop sz i win =
      Some (map (\<lambda>t. if i \<le> t \<and> t < sz then 1 / 2 * (1 - cos (2 * pi * real t / real (sz - 1)))
                      else win ! t) [0..<length win])"
proof (induction "sz - i" arbitrary: i win rule: less_induct)
  case less
  show ?case
  proof (cases "i < sz")
    case False
    then have "map (\<lambda>t. if i \<le> t \<and> t < sz then 1 / 2 * (1 - cos (2 * pi * real t / real (sz - 1)))
                      else win ! t) [0..<length win] = win"
      by (intro nth_equalityI) auto
    with False show ?thesis by (subst generate_window_loop.simps) simp
  next
    case True
    let ?v = "1 / 2 * (1 - cos (2 * pi * real i / real (sz - 1)))"
    let ?w1 = "win[i := ?v]"
    have b: "Option.bind (hann i sz) (vset win i) = Some ?w1"
      using True less.prems(1) by (simp add: hann_Some [OF sz] vset_def)
    have ih: "generate_window_loop sz (i + 1) ?w1 =
      Some (map (\<lambda>t. if i + 1 \<le> t \<and> t < sz then 1 / 2 * (1 - cos (2 * pi * real t / real (sz - 1)))
                      else ?w1 ! t) [0..<length ?w1])"
      using less.hyps [of "i + 1" ?w1] True less.prems(1) by simp
    have eq: "map (\<lambda>t. if i + 1 \<le> t \<and> t < sz then 1 / 2 * (1 - cos (2 * pi * real t / real (sz - 1)))
                      else ?w1 ! t) [0..<length ?w1]
        = map (\<lambda>t. if i \<le> t \<and> t < sz then 1 / 2 * (1 - cos (2 * pi * real t / real (sz - 1)))
                      else win ! t) [0..<length win]"
      using True less.prems(1) by (intro nth_equalityI) (auto simp: nth_list_update)
    show ?thesis
      by (subst generate_window_loop.simps) (simp only: True if_True b option.case ih eq)
  qed
qed

text \<open>
  C8.  For every size of at least 2 (and a vector that has room for it),
  \<^verbatim>\<open>chiller_generate_window\<close> returns the vector in which entry \<open>i\<close> is
  \<open>0.5 * (1 - cos (2\<pi>i / (size - 1)))\<close> for every \<open>i\<close> below the size; nothing else is
  touched (the entries from the size on keep their values, the length is the same); and the
  first and the last entry of the window are 0.
\<close>

theorem generate_window_hann:
  assumes "2 \<le> sz" "sz \<le> length win"
  shows "\<exists>w. chiller_generate_window win sz = Some w \<and> length w = length win
           \<and> (\<forall>i<sz. w ! i = 0.5 * (1 - cos (2 * pi * real i / real (sz - 1))))
           \<and> (\<forall>i. sz \<le> i \<and> i < length win \<longrightarrow> w ! i = win ! i)
           \<and> w ! 0 = 0 \<and> w ! (sz - 1) = 0"
proof -
  let ?w = "map (\<lambda>t. if 0 \<le> t \<and> t < sz then 1 / 2 * (1 - cos (2 * pi * real t / real (sz - 1)))
                      else win ! t) [0..<length win]"
  have run: "chiller_generate_window win sz = Some ?w"
    using generate_window_loop_part [OF assms(1) assms(2), of 0]
    by (simp add: chiller_generate_window_def)
  have nth: "\<And>t. t < length win \<Longrightarrow>
      ?w ! t = (if t < sz then 1 / 2 * (1 - cos (2 * pi * real t / real (sz - 1))) else win ! t)"
    by simp
  have "real (sz - 1) \<noteq> 0" using assms(1) by simp
  then have one: "cos (2 * pi * real (sz - 1) / real (sz - 1)) = 1" by simp
  have "0 < length win" and "sz - 1 < length win" and "sz - 1 < sz" and "0 < sz"
    using assms by linarith+
  then have "?w ! 0 = 0" and "?w ! (sz - 1) = 0"
    using one by simp_all
  moreover have "\<forall>i<sz. ?w ! i = 0.5 * (1 - cos (2 * pi * real i / real (sz - 1)))"
    using assms(2) by simp
  moreover have "\<forall>i. sz \<le> i \<and> i < length win \<longrightarrow> ?w ! i = win ! i"
    by simp
  moreover have "length ?w = length win" by simp
  ultimately show ?thesis using run by blast
qed

theorem generate_window_hann_witness:
  "\<exists>w. chiller_generate_window (replicate 512 0) 512 = Some w \<and> length w = 512
       \<and> (\<forall>i<512. w ! i = 0.5 * (1 - cos (2 * pi * real i / 511)))
       \<and> w ! 0 = 0 \<and> w ! 511 = 0"
  using generate_window_hann [of 512 "replicate 512 0"] by simp

subsection \<open>The concrete host and object\<close>

lemma example_state_simps:
  "buffer_ref example_state = Some 0"
  "fft_size example_state = 512"
  "hop_size example_state = 128"
  "spectrum_captured example_state = False"
  "capturing_spectrum example_state = False"
  "position example_state = 1 / 2"
  "last_position_change_time example_state = 0"
  "length (frozen_spectrum example_state) = 512"
  "length (window example_state) = 512"
  "length (overlap_buffer_l example_state) = 512"
  "length (overlap_buffer_r example_state) = 512"
  "length (fft_buffer example_state) = 512"
  "length (analysis_buffer example_state) = 512"
  by (simp_all add: example_state_def)

lemma example_host_simps:
  "buffer_ref_getobject (example_host frames time) ref =
     Some \<lparr>buffer_locksamples = Some (replicate (nat frames) (1 / 2)),
           buffer_getframecount = frames, buffer_getchannelcount = 1\<rparr>"
  "systimer_gettime (example_host frames time) = time"
  "buffer_ref_new (example_host frames time) s = Some 0"
  by (simp_all add: example_host_def)

subsection \<open>Silence without a captured spectrum\<close>

lemma silence_replicate: "silence n = (replicate n 0, replicate n 0)"
  by (induction n) simp_all

text \<open>
  C3.  When the audio callback runs in a state in which no spectrum has been captured or no
  sample source is bound, then for every block size every output sample of both channels
  is 0 and the whole state (overlap accumulators, hop counter and everything else) is
  unchanged.
\<close>

theorem perform64_silence:
  assumes "\<not> spectrum_captured x \<or> buffer_ref x = None"
  shows "chiller_perform64 h x sampleframes
           = Some (replicate sampleframes 0, replicate sampleframes 0, x)"
  using assms by (auto simp add: chiller_perform64_def silence_replicate)

theorem perform64_silence_witness:
  "\<not> spectrum_captured example_state
   \<and> chiller_perform64 (example_host 1024 0) example_state 64
       = Some (replicate 64 0, replicate 64 0, example_state)"
proof -
  have a: "\<not> spectrum_captured example_state" by (simp add: example_state_simps)
  from perform64_silence [of example_state "example_host 1024 0" 64] a show ?thesis by simp
qed

subsection \<open>Failed captures\<close>

lemma capturing_reset: "\<not> capturing_spectrum x \<Longrightarrow> x\<lparr>capturing_spectrum := False\<rparr> = x"
  by (cases x) simp

lemma capture_cases:
  "chiller_capture_spectrum h x =
     (case capture_failure h x of
        Some No_buffer_set \<Rightarrow> Some (No_buffer_set, x)
      | Some e \<Rightarrow> Some (e, x\<lparr>capturing_spectrum := False\<rparr>)
      | None \<Rightarrow> chiller_capture_spectrum h x)"
  by (simp add: capture_failure_def chiller_capture_spectrum_def Let_def split: option.splits)

lemma capture_failure_not_captured: "capture_failure h x \<noteq> Some Spectrum_captured"
  by (simp add: capture_failure_def split: option.splits)

lemma capture_report_captured:
  assumes "capture_failure h x = None" "chiller_capture_spectrum h x = Some (e, x')"
  shows "e = Spectrum_captured"
proof -
  from assms(1) obtain ref buffer buffer_samples where
    "buffer_ref x = Some ref" "buffer_ref_getobject h ref = Some buffer"
    "buffer_locksamples buffer = Some buffer_samples"
    "\<not> buffer_getframecount buffer < int (fft_size x)"
    by (auto simp add: capture_failure_def split: option.splits if_splits)
  with assms(2) show ?thesis
    by (simp add: chiller_capture_spectrum_def Let_def split: Option.bind_splits)
qed

text \<open>
  C4.  Starting from a state in which no capture is running: when the capture request
  fails (no source bound, source not resolvable, sample data inaccessible, or fewer frames
  than the transform size), the routine reports that failure and returns the state exactly
  as it was, so the frozen spectrum, the captured flag, the overlap accumulators, the hop
  counter, the position and all parameters are unchanged and the capturing flag is false
  again.  Conversely a capture that reports anything but success is one of these failures.
\<close>

theorem capture_failure_unchanged:
  assumes "\<not> capturing_spectrum x"
  shows "(\<forall>e. capture_failure h x = Some e \<longrightarrow>
            chiller_capture_spectrum h x = Some (e, x) \<and> e \<noteq> Spectrum_captured)
         \<and> (\<forall>e x'. chiller_capture_spectrum h x = Some (e, x') \<and> e \<noteq> Spectrum_captured \<longrightarrow>
               capture_failure h x = Some e \<and> x' = x \<and> \<not> capturing_spectrum x')"
proof -
  have fail: "\<And>e. capture_failure h x = Some e \<Longrightarrow>
      chiller_capture_spectrum h x = Some (e, x) \<and> e \<noteq> Spectrum_captured"
  proof -
    fix e assume e: "capture_failure h x = Some e"
    then have "e \<noteq> Spectrum_captured" using capture_failure_not_captured [of h x] by auto
    moreover have "chiller_capture_spectrum h x = Some (e, x)"
      by (subst capture_cases) (simp add: e capturing_reset [OF assms] split: report.splits)
    ultimately show "chiller_capture_spectrum h x = Some (e, x) \<and> e \<noteq> Spectrum_captured"
      by simp
  qed
  have conv: "\<And>e x'. chiller_capture_spectrum h x = Some (e, x') \<Longrightarrow> e \<noteq> Spectrum_captured \<Longrightarrow>
      capture_failure h x = Some e \<and> x' = x \<and> \<not> capturing_spectrum x'"
  proof -
    fix e x' assume r: "chiller_capture_spectrum h x = Some (e, x')" and ne: "e \<noteq> Spectrum_captured"
    show "capture_failure h x = Some e \<and> x' = x \<and> \<not> capturing_spectrum x'"
    proof (cases "capture_failure h x")
      case None
      from capture_report_captured [OF None r] ne show ?thesis by simp
    next
      case (Some e')
      from fail [OF Some] r assms show ?thesis by (simp add: Some)
    qed
  qed
  from fail conv show ?thesis by blast
qed

theorem capture_failure_unchanged_witness:
  "\<not> capturing_spectrum example_state
   \<and> capture_failure (example_host 100 0) example_state = Some Buffer_too_small
   \<and> chiller_capture_spectrum (example_host 100 0) example_state
       = Some (Buffer_too_small, example_state)"
proof -
  have a: "\<not> capturing_spectrum example_state" by (simp add: example_state_simps)
  have b: "capture_failure (example_host 100 0) example_state = Some Buffer_too_small"
    by (simp add: capture_failure_def example_host_simps example_state_simps)
  from capture_failure_unchanged [OF a, of "example_host 100 0"] b
  have "chiller_capture_spectrum (example_host 100 0) example_state
      = Some (Buffer_too_small, example_state)"
    by blast
  with a b show ?thesis by blast
qed

subsection \<open>Rounding\<close>

lemma round_even_of_int [simp]: "round_even (of_int n) = n"
  by (simp add: round_even_def)

lemma round_even_le: "m \<le> of_int M \<Longrightarrow> round_even m \<le> M"
  unfolding round_even_def Let_def by (auto; linarith)

lemma round_even_ge: "of_int M \<le> m \<Longrightarrow> M \<le> round_even m"
  unfolding round_even_def Let_def by (auto; linarith)

lemma ulp_pos: "0 < ulp p emin r"
  by (simp add: ulp_def)

lemma floor_log2_less:
  assumes "r \<noteq> 0" "\<bar>r\<bar> < 2 powi k"
  shows "\<lfloor>log 2 \<bar>r\<bar>\<rfloor> < k"
proof (rule ccontr)
  assume "\<not> \<lfloor>log 2 \<bar>r\<bar>\<rfloor> < k"
  then have "k \<le> \<lfloor>log 2 \<bar>r\<bar>\<rfloor>" by simp
  then have "real_of_int k \<le> log 2 \<bar>r\<bar>" by (simp add: le_floor_iff)
  then have "2 powr (real_of_int k) \<le> \<bar>r\<bar>" using assms(1) by (simp add: le_log_iff)
  then show False using assms(2) by (simp add: powr_real_of_int')
qed


lemma ulp_divides:
  assumes "r \<noteq> 0" "\<bar>r\<bar> < 2 powi (j + int p)" "emin - int p + 1 \<le> j"
  shows "\<exists>k::nat. 2 powi j = 2 ^ k * ulp p emin r"
proof -
  let ?e = "max \<lfloor>log 2 \<bar>r\<bar>\<rfloor> emin - int p + 1"
  have "\<lfloor>log 2 \<bar>r\<bar>\<rfloor> < j + int p" by (rule floor_log2_less [OF assms(1,2)])
  then have le: "?e \<le> j" using assms(3) by simp
  have "(2::real) powi j = 2 powi (int (nat (j - ?e)) + ?e)" using le by simp
  also have "\<dots> = 2 powi int (nat (j - ?e)) * 2 powi ?e" by (subst power_int_add) simp_all
  also have "\<dots> = 2 ^ nat (j - ?e) * ulp p emin r" by (simp only: power_int_of_nat ulp_def)
  finally show ?thesis by blast
qed

lemma round_binary_bounds:
  assumes j: "emin - int p + 1 \<le> j" and a: "\<bar>a\<bar> < 2 ^ p" and b: "\<bar>b\<bar> < 2 ^ p"
    and lo: "of_int a * 2 powi j \<le> r" and hi: "r \<le> of_int b * 2 powi j"
  shows "of_int a * 2 powi j \<le> round_binary p emin r \<and> round_binary p emin r \<le> of_int b * 2 powi j"
proof (cases "r = 0")
  case True
  with lo hi show ?thesis by (simp add: round_binary_def)
next
  case False
  let ?u = "ulp p emin r"
  have pj: "(0::real) < 2 powi j" by simp
  have "\<bar>r\<bar> \<le> max \<bar>of_int a * 2 powi j\<bar> \<bar>of_int b * 2 powi j :: real\<bar>" using lo hi by linarith
  also have "\<dots> = max \<bar>real_of_int a\<bar> \<bar>real_of_int b\<bar> * 2 powi j"
    by (simp add: abs_mult max_mult_distrib_right)
  also have "\<dots> < 2 ^ p * 2 powi j"
  proof -
    have "real_of_int \<bar>a\<bar> < real_of_int (2 ^ p)" "real_of_int \<bar>b\<bar> < real_of_int (2 ^ p)"
      using a b by (simp_all only: of_int_less_iff)
    then have "max \<bar>real_of_int a\<bar> \<bar>real_of_int b\<bar> < 2 ^ p" by simp
    then show ?thesis using pj by simp
  qed
  also have "\<dots> = 2 powi (j + int p)" by (simp add: power_int_add)
  finally have "\<bar>r\<bar> < 2 powi (j + int p)" .
  from ulp_divides [OF False this j] obtain k :: nat where k: "2 powi j = 2 ^ k * ?u" by blast
  have u: "0 < ?u" by (rule ulp_pos)
  have "real_of_int (a * 2 ^ k) * ?u \<le> r" using lo k by (simp add: mult.assoc)
  then have "real_of_int (a * 2 ^ k) \<le> r / ?u" using u by (simp add: pos_le_divide_eq)
  then have 1: "a * 2 ^ k \<le> round_even (r / ?u)" by (rule round_even_ge)
  have "r \<le> real_of_int (b * 2 ^ k) * ?u" using hi k by (simp add: mult.assoc)
  then have "r / ?u \<le> real_of_int (b * 2 ^ k)" using u by (simp add: pos_divide_le_eq)
  then have 2: "round_even (r / ?u) \<le> b * 2 ^ k" by (rule round_even_le)
  have "real_of_int (a * 2 ^ k) * ?u \<le> real_of_int (round_even (r / ?u)) * ?u"
    using 1 u by (simp only: mult_le_cancel_right_pos of_int_le_iff)
  moreover have "real_of_int (round_even (r / ?u)) * ?u \<le> real_of_int (b * 2 ^ k) * ?u"
    using 2 u by (simp only: mult_le_cancel_right_pos of_int_le_iff)
  ultimately show ?thesis using False k by (simp add: round_binary_def mult.assoc)
qed

lemma round_binary_exact:
  assumes "emin - int p + 1 \<le> j" "\<bar>m\<bar> < 2 ^ p"
  shows "round_binary p emin (of_int m * 2 powi j) = of_int m * 2 powi j"
  using round_binary_bounds [OF assms(1) assms(2) assms(2), of "of_int m * 2 powi j"] by simp

lemma ulp_eq:
  assumes "2 powi e \<le> \<bar>r\<bar>" "\<bar>r\<bar> < 2 powi (e + 1)" "emin \<le> e"
  shows "ulp p emin r = 2 powi (e - int p + 1)"
proof -
  have r: "0 < \<bar>r\<bar>" using assms(1) by (smt (verit) zero_less_power_int)
  have "2 powr real_of_int e \<le> \<bar>r\<bar>" "\<bar>r\<bar> < 2 powr real_of_int (e + 1)"
    using assms(1,2) by (simp_all only: powr_real_of_int' zero_le_numeral numeral_neq_zero
      simp_thms not_False_eq_True)
  then have "\<lfloor>log 2 \<bar>r\<bar>\<rfloor> = e"
    using r by (subst floor_log_eq_powr_iff) simp_all
  then show ?thesis using assms(3) by (simp add: ulp_def)
qed

lemma round_binary_0 [simp]: "round_binary p emin 0 = 0"
  by (simp add: round_binary_def)

lemma abs_lt_pow_succ:
  assumes "r \<noteq> 0"
  shows "\<bar>r\<bar> < 2 powi (\<lfloor>log 2 \<bar>r\<bar>\<rfloor> + 1)"
proof -
  have "0 < \<bar>r\<bar>" using assms by simp
  then have "\<bar>r\<bar> < 2 powr real_of_int (\<lfloor>log 2 \<bar>r\<bar>\<rfloor> + 1)"
    using floor_log_eq_powr_iff [of "\<bar>r\<bar>" 2 "\<lfloor>log 2 \<bar>r\<bar>\<rfloor>"] by simp
  then show ?thesis by (simp only: powr_real_of_int' zero_le_numeral numeral_neq_zero
      simp_thms not_False_eq_True)
qed

lemma round_even_abs_le:
  assumes "\<bar>m\<bar> \<le> of_int M"
  shows "\<bar>round_even m\<bar> \<le> M"
proof -
  have "m \<le> of_int M" "of_int (- M) \<le> m" using assms by simp_all
  then have "round_even m \<le> M" "- M \<le> round_even m"
    by (auto intro: round_even_le round_even_ge)
  then show ?thesis by simp
qed

lemma half_float_exact: "round_double (round_float r * 0.5) = round_float r / 2"
proof (cases "r = 0")
  case True
  then show ?thesis by (simp add: round_double_def round_float_def)
next
  case False
  let ?e = "max \<lfloor>log 2 \<bar>r\<bar>\<rfloor> (- 126) - int 24 + 1"
  let ?u = "ulp 24 (- 126) r"
  let ?n = "round_even (r / ?u)"
  have u: "?u = 2 powi ?e" by (simp add: ulp_def)
  have "\<bar>r\<bar> < 2 powi (\<lfloor>log 2 \<bar>r\<bar>\<rfloor> + 1)" by (rule abs_lt_pow_succ [OF False])
  also have "\<dots> \<le> 2 powi (?e + 24)" by (intro power_int_increasing) simp_all
  also have "\<dots> = 2 ^ 24 * ?u" unfolding u by (subst power_int_add) simp_all
  finally have "\<bar>r\<bar> / ?u \<le> 2 ^ 24" using ulp_pos [of 24 "- 126" r] by (simp add: pos_divide_le_eq)
  then have "\<bar>r / ?u\<bar> \<le> real_of_int (2 ^ 24)" using ulp_pos [of 24 "- 126" r] by simp
  then have n: "\<bar>?n\<bar> \<le> 2 ^ 24" by (rule round_even_abs_le)
  have rf: "round_float r = of_int ?n * 2 powi ?e"
    using False by (simp add: round_float_def round_binary_def u)
  have "(2::real) powi (?e - 1) = 2 powi ?e / 2" by (subst power_int_diff) simp_all
  then have "round_float r * 0.5 = of_int ?n * 2 powi (?e - 1)"
    unfolding rf by simp
  moreover have "round_double (of_int ?n * 2 powi (?e - 1)) = of_int ?n * 2 powi (?e - 1)"
    unfolding round_double_def
  proof (rule round_binary_exact)
    show "- 1022 - int 53 + 1 \<le> ?e - 1" by simp
    show "\<bar>?n\<bar> < 2 ^ 53" using n by simp
  qed
  ultimately show ?thesis by simp
qed

lemma float_add_Some:
  assumes "\<bar>a\<bar> \<le> 2 ^ 126" "\<bar>b\<bar> \<le> 2 ^ 126"
  shows "float_add a b = Some (round_float (a + b))"
proof -
  have "\<bar>a + b\<bar> \<le> 2 ^ 127" using assms by simp
  then have "real_of_int (- 1) * 2 powi 127 \<le> a + b" "a + b \<le> real_of_int 1 * 2 powi 127"
    by simp_all
  from round_binary_bounds [OF _ _ _ this, of "- 126" 24]
  have "\<bar>round_float (a + b)\<bar> \<le> 2 ^ 127" by (simp add: round_float_def abs_le_iff)
  then have "\<bar>round_float (a + b)\<bar> < 2 ^ 128" by simp
  then show ?thesis by (simp add: float_add_def Let_def)
qed

lemma double_of_long_exact:
  assumes "\<bar>d\<bar> < 2 ^ 53"
  shows "double_of_long d = real_of_int d"
  using round_binary_exact [of "- 1022" 53 0 d] assms
  by (simp add: double_of_long_def round_double_def)

lemma round_double_int: "\<bar>m\<bar> < 2 ^ 53 \<Longrightarrow> round_double (real_of_int m) = real_of_int m"
  using double_of_long_exact [of m] by (simp add: double_of_long_def)

lemma round_double_range:
  assumes "0 \<le> r" "r \<le> real_of_int d" "d < 2 ^ 53"
  shows "0 \<le> round_double r \<and> round_double r \<le> real_of_int d"
proof -
  have d: "0 \<le> d" using assms(1,2) by linarith
  have "real_of_int 0 * 2 powi 0 \<le> r" "r \<le> real_of_int d * 2 powi 0" using assms by simp_all
  from round_binary_bounds [OF _ _ _ this, of "- 1022" 53] d assms(3)
  show ?thesis by (simp add: round_double_def)
qed

subsection \<open>The steps of a capture\<close>

lemma valid_fft_size_pow: "valid_fft_size n \<Longrightarrow> \<exists>K. n = 2 ^ K"
proof -
  have "(512::nat) = 2 ^ 9" "(1024::nat) = 2 ^ 10" "(2048::nat) = 2 ^ 11"
    "(4096::nat) = 2 ^ 12" "(8192::nat) = 2 ^ 13" by simp_all
  then show "valid_fft_size n \<Longrightarrow> \<exists>K. n = 2 ^ K"
    unfolding valid_fft_size_def by blast
qed

lemma valid_fft_size_bounds: "valid_fft_size n \<Longrightarrow> 512 \<le> n \<and> n \<le> 8192"
  by (auto simp add: valid_fft_size_def)

lemma capture_start_frame_range:
  assumes "0 \<le> p" "p \<le> 1" "0 \<le> frames - int n" "frames - int n < 2 ^ 53"
  shows "capture_start_frame p frames n = \<lfloor>round_double (p * real_of_int (frames - int n))\<rfloor>"
    and "0 \<le> capture_start_frame p frames n"
    and "capture_start_frame p frames n + int n \<le> frames"
proof -
  let ?d = "frames - int n"
  let ?r = "round_double (p * real_of_int ?d)"
  have c: "double_of_long ?d = real_of_int ?d" using assms(3,4) by (intro double_of_long_exact) simp
  have "0 \<le> p * real_of_int ?d" using assms(1,3) by simp
  moreover have "p * real_of_int ?d \<le> real_of_int ?d"
    using assms(2,3) mult_right_mono [of p 1 "real_of_int ?d"] by simp
  ultimately have r: "0 \<le> ?r" "?r \<le> real_of_int ?d"
    using round_double_range [OF _ _ assms(4)] by blast+
  show s: "capture_start_frame p frames n = \<lfloor>?r\<rfloor>"
    using r(1) by (simp only: capture_start_frame_def c long_of_double_def if_True)
  show "0 \<le> capture_start_frame p frames n" unfolding s using r(1) by simp
  have "\<lfloor>?r\<rfloor> \<le> ?d" using r(2) by (simp only: floor_le_iff)
  then show "capture_start_frame p frames n + int n \<le> frames" unfolding s by simp
qed

lemma read_frame_Some:
  assumes "1 \<le> channels" "int (length samples) = frames * channels" "int k < frames"
    and mix: "channels = 1 \<or> (\<forall>s\<in>set samples. \<bar>s\<bar> \<le> 2 ^ 126)"
  shows "read_frame samples channels (int k) =
     Some (if channels = 1 then samples ! k
           else round_float (samples ! (2 * k) + samples ! (2 * k + 1)) / 2)"
proof (cases "channels = 1")
  case True
  with assms show ?thesis by (simp add: read_frame_def sget_def)
next
  case False
  with assms(1) have c: "2 \<le> channels" by simp
  have "(int k + 1) * 2 \<le> frames * 2" using assms(3) by simp
  also have "\<dots> \<le> frames * channels" using c assms(3) by (intro mult_left_mono) simp_all
  finally have "int k * 2 + 1 < int (length samples)" using assms(2) by simp
  then have r: "k * 2 + 1 < length samples" by linarith
  then have in_range: "nat (int k * 2) < length samples" "nat (int k * 2 + 1) < length samples"
    by (simp_all add: nat_mult_distrib nat_add_distrib)
  have idx: "nat (int k * 2) = 2 * k" "nat (int k * 2 + 1) = 2 * k + 1"
    by (simp_all add: nat_mult_distrib nat_add_distrib)
  from r mix False have "\<bar>samples ! (2 * k)\<bar> \<le> 2 ^ 126" "\<bar>samples ! (2 * k + 1)\<bar> \<le> 2 ^ 126"
    by (simp_all add: mult.commute)
  then have fa: "float_add (samples ! (2 * k)) (samples ! (2 * k + 1))
      = Some (round_float (samples ! (2 * k) + samples ! (2 * k + 1)))"
    by (rule float_add_Some)
  have "round_double (round_float (samples ! (2 * k) + samples ! (2 * k + 1)) * 0.5)
      = round_float (samples ! (2 * k) + samples ! (2 * k + 1)) / 2"
    by (rule half_float_exact)
  moreover have "read_frame samples channels (int k)
      = Some (round_double (round_float (samples ! (2 * k) + samples ! (2 * k + 1)) * 0.5))"
    using False in_range fa by (simp add: read_frame_def sget_def idx)
  ultimately show ?thesis using False by (simp only: if_False)
qed

lemma copy_samples_part:
  assumes ch: "1 \<le> channels" and len: "int (length samples) = frames * channels"
    and fit: "int (start + n) \<le> frames"
    and mix: "channels = 1 \<or> (\<forall>s\<in>set samples. \<bar>s\<bar> \<le> 2 ^ 126)"
  shows "n \<le> length ab \<Longrightarrow> i \<le> n \<Longrightarrow>
    copy_samples samples channels (int start) n i ab =
      Some (map (\<lambda>t. if i \<le> t \<and> t < n then segment samples channels start n ! t else ab ! t)
              [0..<length ab])"
proof (induction "n - i" arbitrary: i ab rule: less_induct)
  case less
  show ?case
  proof (cases "i < n")
    case False
    then have "map (\<lambda>t. if i \<le> t \<and> t < n then segment samples channels start n ! t else ab ! t)
              [0..<length ab] = ab"
      by (intro nth_equalityI) auto
    with False show ?thesis by (subst copy_samples.simps) simp
  next
    case True
    let ?v = "segment samples channels start n ! i"
    let ?ab1 = "ab[i := ?v]"
    have "int (start + i) < frames" using True fit by simp
    from read_frame_Some [OF ch len this mix]
    have "read_frame samples channels (int start + int i) = Some ?v"
      using True by (simp add: segment_def)
    then have b: "Option.bind (read_frame samples channels (int start + int i)) (vset ab i) = Some ?ab1"
      using True less.prems(1) by (simp add: vset_def)
    have ih: "copy_samples samples channels (int start) n (i + 1) ?ab1 =
      Some (map (\<lambda>t. if i + 1 \<le> t \<and> t < n then segment samples channels start n ! t else ?ab1 ! t)
              [0..<length ?ab1])"
      using less.hyps [of "i + 1" ?ab1] True less.prems(1) by simp
    have eq: "map (\<lambda>t. if i + 1 \<le> t \<and> t < n then segment samples channels start n ! t else ?ab1 ! t)
              [0..<length ?ab1]
        = map (\<lambda>t. if i \<le> t \<and> t < n then segment samples channels start n ! t else ab ! t)
              [0..<length ab]"
      using True less.prems(1) by (intro nth_equalityI) (auto simp: nth_list_update)
    show ?thesis
      by (subst copy_samples.simps) (simp only: True if_True b option.case ih eq)
  qed
qed

lemma length_segment [simp]: "length (segment samples channels start n) = n"
  by (simp add: segment_def)

lemma copy_samples_segment:
  assumes "1 \<le> channels" "int (length samples) = frames * channels"
    "int (start + n) \<le> frames" "channels = 1 \<or> (\<forall>s\<in>set samples. \<bar>s\<bar> \<le> 2 ^ 126)"
    "length ab = n"
  shows "copy_samples samples channels (int start) n 0 ab = Some (segment samples channels start n)"
proof -
  have "map (\<lambda>t. if 0 \<le> t \<and> t < n then segment samples channels start n ! t else ab ! t)
              [0..<length ab] = segment samples channels start n"
    using assms(5) by (intro nth_equalityI) auto
  then show ?thesis
    using copy_samples_part [OF assms(1-4), of ab 0] assms(5) by simp
qed

lemma apply_window_loop_part:
  "apply_window_loop i buffer win =
     map (\<lambda>t. if i \<le> t \<and> t < length win then buffer ! t * win ! t else buffer ! t) [0..<length buffer]"
proof (induction "length buffer - i" arbitrary: i buffer rule: less_induct)
  case less
  show ?case
  proof (cases "i < length buffer \<and> i < length win")
    case False
    then have "map (\<lambda>t. if i \<le> t \<and> t < length win then buffer ! t * win ! t else buffer ! t)
        [0..<length buffer] = buffer"
      by (intro nth_equalityI) auto
    with False show ?thesis by (subst apply_window_loop.simps) auto
  next
    case True
    let ?b1 = "buffer[i := buffer ! i * win ! i]"
    have ih: "apply_window_loop (i + 1) ?b1 win =
       map (\<lambda>t. if i + 1 \<le> t \<and> t < length win then ?b1 ! t * win ! t else ?b1 ! t) [0..<length ?b1]"
    proof -
      have "length ?b1 - (i + 1) < length buffer - i" using True by auto
      from less.hyps [OF this] show ?thesis .
    qed
    have eq: "map (\<lambda>t. if i + 1 \<le> t \<and> t < length win then ?b1 ! t * win ! t else ?b1 ! t) [0..<length ?b1]
      = map (\<lambda>t. if i \<le> t \<and> t < length win then buffer ! t * win ! t else buffer ! t) [0..<length buffer]"
      using True by (intro nth_equalityI) (auto simp: nth_list_update)
    show ?thesis
      by (subst apply_window_loop.simps) (simp only: True if_True ih eq simp_thms)
  qed
qed

lemma chiller_apply_window_map2:
  "length buffer = length win \<Longrightarrow> chiller_apply_window buffer win = map2 (*) buffer win"
  unfolding chiller_apply_window_def apply_window_loop_part
  by (intro nth_equalityI) simp_all

lemma copy_to_fft_part:
  "length ab \<le> length fb \<Longrightarrow> i \<le> length ab \<Longrightarrow>
   copy_to_fft ab i fb =
     Some (map (\<lambda>t. if i \<le> t \<and> t < length ab then Complex (ab ! t) 0 else fb ! t) [0..<length fb])"
proof (induction "length ab - i" arbitrary: i fb rule: less_induct)
  case less
  show ?case
  proof (cases "i < length ab")
    case False
    then have "map (\<lambda>t. if i \<le> t \<and> t < length ab then Complex (ab ! t) 0 else fb ! t)
        [0..<length fb] = fb"
      by (intro nth_equalityI) auto
    with False show ?thesis by (subst copy_to_fft.simps) simp
  next
    case True
    let ?f1 = "fb[i := Complex (ab ! i) 0]"
    have b: "vset fb i (Complex (ab ! i) 0.0) = Some ?f1"
      using True less.prems(1) by (simp add: vset_def)
    have ih: "copy_to_fft ab (i + 1) ?f1 =
       Some (map (\<lambda>t. if i + 1 \<le> t \<and> t < length ab then Complex (ab ! t) 0 else ?f1 ! t) [0..<length ?f1])"
      using less.hyps [of "i + 1" ?f1] True less.prems(1) by simp
    have eq: "map (\<lambda>t. if i + 1 \<le> t \<and> t < length ab then Complex (ab ! t) 0 else ?f1 ! t) [0..<length ?f1]
      = map (\<lambda>t. if i \<le> t \<and> t < length ab then Complex (ab ! t) 0 else fb ! t) [0..<length fb]"
      using True less.prems(1) by (intro nth_equalityI) (auto simp: nth_list_update)
    show ?thesis
      by (subst copy_to_fft.simps) (simp only: True if_True b option.case ih eq)
  qed
qed

lemma copy_to_fft_map:
  assumes "length fb = length ab"
  shows "copy_to_fft ab 0 fb = Some (map (\<lambda>v. Complex v 0) ab)"
proof -
  have "map (\<lambda>t. if 0 \<le> t \<and> t < length ab then Complex (ab ! t) 0 else fb ! t) [0..<length fb]
      = map (\<lambda>v. Complex v 0) ab"
    using assms by (intro nth_equalityI) auto
  then show ?thesis using copy_to_fft_part [of ab fb 0] assms by simp
qed




lemma length_normalize_spectrum [simp]: "length (normalize_spectrum n fb) = length fb"
  by (simp add: normalize_spectrum_def Let_def)



lemma capture_success:
  fixes x :: "'r t_chiller"
  assumes inv: "chiller_inv x" and ref: "buffer_ref x = Some ref"
    and obj: "buffer_ref_getobject h ref = Some buffer"
    and smp: "buffer_locksamples buffer = Some samples"
    and ok: "buffer_ok buffer"
    and big: "int (fft_size x) \<le> buffer_getframecount buffer"
  defines "start \<equiv> capture_start_frame (position x) (buffer_getframecount buffer) (fft_size x)"
  defines "seg \<equiv> segment samples (buffer_getchannelcount buffer) (nat start) (fft_size x)"
  defines "ab \<equiv> map2 (*) seg (window x)"
  defines "fb \<equiv> normalize_spectrum (fft_size x) (dft (map (\<lambda>v. Complex v 0) ab))"
  shows "start = \<lfloor>round_double (position x * real_of_int (buffer_getframecount buffer - int (fft_size x)))\<rfloor>"
    and "0 \<le> start" and "start + int (fft_size x) \<le> buffer_getframecount buffer"
    and "copy_samples samples (buffer_getchannelcount buffer) start (fft_size x) 0 (analysis_buffer x)
          = Some seg"
    and "chiller_fft (map (\<lambda>v. Complex v 0) ab) = Some (dft (map (\<lambda>v. Complex v 0) ab))"
    and "chiller_capture_spectrum h x =
          Some (Spectrum_captured,
            x\<lparr>analysis_buffer := ab, fft_buffer := fb, frozen_spectrum := fb,
              overlap_buffer_l := replicate (fft_size x) 0,
              overlap_buffer_r := replicate (fft_size x) 0,
              hop_counter := 0, spectrum_captured := True, capturing_spectrum := False\<rparr>)"
proof -
  let ?N = "fft_size x"
  let ?F = "buffer_getframecount buffer"
  let ?C = "buffer_getchannelcount buffer"
  from inv have pos: "0 \<le> position x" "position x \<le> 1" by (simp_all add: chiller_inv_def)
  from inv have lens: "length (analysis_buffer x) = ?N" "length (window x) = ?N"
    "length (fft_buffer x) = ?N" "length (overlap_buffer_l x) = ?N" "length (overlap_buffer_r x) = ?N"
    by (simp_all add: chiller_inv_def)
  from inv obtain K where K: "?N = 2 ^ K"
    using valid_fft_size_pow by (auto simp add: chiller_inv_def)
  from ok smp have ch: "1 \<le> ?C" and len: "int (length samples) = ?F * ?C"
    and small: "?F < 2 ^ 53" and mix: "?C = 1 \<or> (\<forall>s\<in>set samples. \<bar>s\<bar> \<le> 2 ^ 126)"
    by (simp_all add: buffer_ok_def)
  from big have d: "0 \<le> ?F - int ?N" by simp
  from small have d53: "?F - int ?N < 2 ^ 53" by simp
  note sf = capture_start_frame_range [OF pos d d53]
  show "start = \<lfloor>round_double (position x * real_of_int (?F - int ?N))\<rfloor>"
    unfolding start_def by (rule sf(1))
  show s0: "0 \<le> start" and s1: "start + int ?N \<le> ?F"
    unfolding start_def by (rule sf(2), rule sf(3))
  have fit: "int (nat start + ?N) \<le> ?F" using s0 s1 by simp
  have "copy_samples samples ?C (int (nat start)) ?N 0 (analysis_buffer x) = Some seg"
    unfolding seg_def by (rule copy_samples_segment [OF ch len fit mix lens(1)])
  then show cp: "copy_samples samples ?C start ?N 0 (analysis_buffer x) = Some seg"
    using s0 by simp
  have lseg: "length seg = length (window x)" by (simp add: seg_def lens)
  have aw: "chiller_apply_window seg (window x) = ab"
    unfolding ab_def by (rule chiller_apply_window_map2 [OF lseg])
  have lab: "length ab = ?N" by (simp add: ab_def seg_def lens)
  have cf: "copy_to_fft ab 0 (fft_buffer x) = Some (map (\<lambda>v. Complex v 0) ab)"
    by (rule copy_to_fft_map) (simp add: lab lens)
  have "length (map (\<lambda>v. Complex v 0) ab) = 2 ^ K" using lab K by simp
  from chiller_fft_dft [OF this]
  show ff: "chiller_fft (map (\<lambda>v. Complex v 0) ab) = Some (dft (map (\<lambda>v. Complex v 0) ab))" .
  have z: "map (\<lambda>_. 0) (overlap_buffer_l x) = replicate ?N 0"
    "map (\<lambda>_. 0) (overlap_buffer_r x) = replicate ?N 0"
    by (simp_all add: map_replicate_const lens)
  from big have nb: "\<not> ?F < int ?N" by simp
  show "chiller_capture_spectrum h x =
          Some (Spectrum_captured,
            x\<lparr>analysis_buffer := ab, fft_buffer := fb, frozen_spectrum := fb,
              overlap_buffer_l := replicate (fft_size x) 0,
              overlap_buffer_r := replicate (fft_size x) 0,
              hop_counter := 0, spectrum_captured := True, capturing_spectrum := False\<rparr>)"
    unfolding chiller_capture_spectrum_def
    using cp by (simp add: ref obj smp nb aw cf ff z fb_def Let_def start_def)
qed

lemma example_state_inv: "chiller_inv example_state"
  by (simp add: chiller_inv_def valid_fft_size_def example_state_def)

lemma example_buffer_ok:
  "0 \<le> frames \<Longrightarrow> frames < 2 ^ 53 \<Longrightarrow>
   buffer_ok \<lparr>buffer_locksamples = Some (replicate (nat frames) (1 / 2)),
              buffer_getframecount = frames, buffer_getchannelcount = 1\<rparr>"
  by (simp add: buffer_ok_def)

text \<open>
  The two bounds on a sample source cannot be dropped.  With \<open>F - N = 2\<^sup>5\<^sup>3 + 3\<close> frames
  more than the transform size and the position 1, the difference becomes the double
  \<open>2\<^sup>5\<^sup>3 + 4\<close> and the start frame is beyond \<open>F - N\<close>: the copy loop reads past the end
  of the array.  And the single-precision sum of \<open>2\<^sup>1\<^sup>2\<^sup>7\<close> with itself is not finite.
\<close>

lemma frame_count_bound_needed:
  "capture_start_frame 1 (2 ^ 53 + 3 + 512) 512 = 2 ^ 53 + 4"
proof -
  let ?r = "9007199254740995 :: real"
  have "ulp 53 (- 1022) ?r = 2 powi (53 - int 53 + 1)"
    by (rule ulp_eq) simp_all
  then have u: "ulp 53 (- 1022) ?r = 2" by simp
  have "round_double ?r = 9007199254740996"
    unfolding round_double_def round_binary_def u
    by (simp add: round_even_def)
  then have d: "double_of_long 9007199254740995 = 9007199254740996"
    by (simp add: double_of_long_def)
  have "round_double (real_of_int 4503599627370498 * 2 powi 1) = real_of_int 4503599627370498 * 2 powi 1"
    unfolding round_double_def by (rule round_binary_exact) simp_all
  then have "round_double 9007199254740996 = 9007199254740996" by simp
  then show ?thesis
    using d by (simp add: capture_start_frame_def long_of_double_def)
qed

lemma sample_bound_needed: "float_add (2 ^ 127) (2 ^ 127) = None"
proof -
  have "round_float (real_of_int 1 * 2 powi 128) = real_of_int 1 * 2 powi 128"
    unfolding round_float_def by (rule round_binary_exact) simp_all
  then have "round_float (2 ^ 127 + 2 ^ 127) = 2 ^ 128" by simp
  then show ?thesis by (simp add: float_add_def Let_def)
qed

lemma round_double_7: "round_double (6305039478318694 / 2 ^ 53 * 10) = 7"
proof -
  let ?r = "6305039478318694 / 2 ^ 53 * 10 :: real"
  have "ulp 53 (- 1022) ?r = 2 powi (2 - int 53 + 1)"
    by (rule ulp_eq) simp_all
  then have u: "ulp 53 (- 1022) ?r = 1 / 2 ^ 50" by (simp add: power_int_minus field_simps)
  show ?thesis
    unfolding round_double_def round_binary_def u
    by (simp add: round_even_def)
qed

lemma round_double_07: "round_double (7 / 10) = 6305039478318694 / 2 ^ 53"
proof -
  have "ulp 53 (- 1022) (7 / 10) = 2 powi (- 1 - int 53 + 1)"
    by (rule ulp_eq) (simp_all add: power_int_minus)
  then have u: "ulp 53 (- 1022) (7 / 10) = 1 / 2 ^ 53" by (simp add: power_int_minus field_simps)
  show ?thesis
    unfolding round_double_def round_binary_def u
    by (simp add: round_even_def)
qed

lemma round_float_tie: "round_float (1 + 1 / 2 ^ 24) = 1"
proof -
  let ?r = "1 + 1 / 2 ^ 24 :: real"
  have "ulp 24 (- 126) ?r = 2 powi (0 - int 24 + 1)"
    by (rule ulp_eq) simp_all
  then have u: "ulp 24 (- 126) ?r = 1 / 2 ^ 23" by (simp add: power_int_minus field_simps)
  show ?thesis
    unfolding round_float_def round_binary_def u
    by (simp add: round_even_def)
qed

lemma round_float_int: "\<bar>m\<bar> < 2 ^ 24 \<Longrightarrow> round_float (real_of_int m) = real_of_int m"
  using round_binary_exact [of "- 126" 24 0 m] by (simp add: round_float_def)

lemma state_07_simps:
  "buffer_ref state_07 = Some 0" "fft_size state_07 = 512"
  "position state_07 = 6305039478318694 / 2 ^ 53"
  "analysis_buffer state_07 = analysis_buffer example_state"
  "window state_07 = window example_state"
  by (simp_all add: state_07_def example_state_simps)

lemma state_07_inv: "chiller_inv state_07"
  using example_state_inv by (simp add: chiller_inv_def state_07_def)

lemma stereo_buffer_simps:
  "buffer_locksamples stereo_buffer = Some (map real [0..<1044])"
  "buffer_getframecount stereo_buffer = 522" "buffer_getchannelcount stereo_buffer = 2"
  "buffer_ref_getobject stereo_host ref = Some stereo_buffer"
  by (simp_all add: stereo_buffer_def stereo_host_def del: upt_rec_numeral)

lemma stereo_buffer_ok: "buffer_ok stereo_buffer"
proof -
  have "\<bar>real k\<bar> \<le> 2 ^ 126" if "k < 1044" for k
  proof -
    have "real k \<le> 1044" using that by simp
    also have "\<dots> \<le> 2 ^ 126" by simp
    finally show ?thesis by simp
  qed
  then show ?thesis
    by (auto simp add: buffer_ok_def stereo_buffer_def simp del: upt_rec_numeral)
qed

lemma start_frame_07: "capture_start_frame (position state_07) 522 (fft_size state_07) = 7"
proof -
  have "double_of_long (522 - int (fft_size state_07)) = 10"
    using double_of_long_exact [of 10] by (simp add: state_07_simps)
  then have "round_double (position state_07 * double_of_long (522 - int (fft_size state_07))) = 7"
    by (simp only: state_07_simps(3) round_double_7)
  then show ?thesis
    by (simp add: capture_start_frame_def long_of_double_def)
qed

text \<open>
  C7, as stated, fails.  After \<^verbatim>\<open>position 0.7\<close> and with a source of 522 frames
  (\<open>N = 512\<close>, so \<open>F - N = 10\<close>) the exact product \<open>position * (F - N)\<close> is just below 7
  and its floor is 6, but the product of the two doubles is the double 7: the segment that
  the code reads starts at frame 7.  And for two channels the entries 1 and \<open>2\<^sup>-\<^sup>2\<^sup>4\<close> give
  the sample \<open>1 / 2\<close>, because their single-precision sum is 1, whereas their average is
  \<open>16777217 / 33554432\<close>.
\<close>

theorem capture_start_not_exact_floor:
  "chiller_inv state_07
   \<and> capture_start_frame (position state_07) 522 (fft_size state_07) = 7
   \<and> \<lfloor>position state_07 * real_of_int (522 - int (fft_size state_07))\<rfloor> = 6
   \<and> read_frame [1, 1 / 2 ^ 24] 2 0 = Some (1 / 2)
   \<and> ([1, 1 / 2 ^ 24] ! 0 + [1, 1 / 2 ^ 24] ! 1) / 2 = (16777217 / 33554432 :: real)"
proof -
  have "\<lfloor>position state_07 * real_of_int (522 - int (fft_size state_07))\<rfloor> = 6"
    by (simp add: state_07_simps)
  moreover have "read_frame [1, 1 / 2 ^ 24] 2 0 = Some (1 / 2)"
  proof -
    have "float_add 1 (1 / 2 ^ 24) = Some 1"
      using round_float_tie by (simp add: float_add_def Let_def)
    moreover have "round_double (1 * 0.5) = 1 / 2"
      using round_binary_exact [of "- 1022" 53 "- 1" 1]
      by (simp add: round_double_def power_int_minus)
    ultimately show ?thesis by (simp add: read_frame_def sget_def)
  qed
  ultimately show ?thesis using state_07_inv start_frame_07 by simp
qed

text \<open>
  C7, amended.  For a capture from a well-formed source with \<open>F \<ge> N\<close> frames, on an
  object that satisfies its invariant: the start frame that the code computes is the floor
  of the product \<open>position * (F - N)\<close> rounded to the nearest double (the product as the
  double multiplication returns it), and it lies between 0 and \<open>F - N\<close>; the copy loop
  returns exactly the \<open>N\<close> frames from that frame on, where for one channel frame \<open>i\<close> is
  the sample at \<open>start + i\<close> and for every other channel count it is half of the
  single-precision sum of the entries at \<open>2 * (start + i)\<close> and \<open>2 * (start + i) + 1\<close>; the
  capture succeeds, and the analysis buffer it leaves is this segment after the windowing
  routine has been applied to it.
\<close>

theorem capture_reads_segment:
  fixes x :: "'r t_chiller"
  assumes "chiller_inv x" and "buffer_ref x = Some ref"
    and "buffer_ref_getobject h ref = Some buffer"
    and "buffer_locksamples buffer = Some samples"
    and "buffer_ok buffer"
    and "int (fft_size x) \<le> buffer_getframecount buffer"
  defines "start \<equiv> \<lfloor>round_double (position x * real_of_int (buffer_getframecount buffer - int (fft_size x)))\<rfloor>"
  shows "capture_start_frame (position x) (buffer_getframecount buffer) (fft_size x) = start
    \<and> 0 \<le> start \<and> start + int (fft_size x) \<le> buffer_getframecount buffer
    \<and> (\<exists>seg x'.
          copy_samples samples (buffer_getchannelcount buffer) start (fft_size x) 0 (analysis_buffer x)
            = Some seg
          \<and> length seg = fft_size x
          \<and> (\<forall>i<fft_size x.
                seg ! i = (if buffer_getchannelcount buffer = 1 then samples ! (nat start + i)
                           else round_float (samples ! (2 * (nat start + i))
                                             + samples ! (2 * (nat start + i) + 1)) / 2))
          \<and> chiller_capture_spectrum h x = Some (Spectrum_captured, x')
          \<and> analysis_buffer x' = chiller_apply_window seg (window x))"
proof -
  let ?s = "capture_start_frame (position x) (buffer_getframecount buffer) (fft_size x)"
  let ?seg = "segment samples (buffer_getchannelcount buffer) (nat start) (fft_size x)"
  note cs = capture_success [OF assms(1-6)]
  have st: "?s = start" unfolding start_def by (rule cs(1))
  from assms(1) have "length ?seg = length (window x)" by (simp add: chiller_inv_def)
  note aw = chiller_apply_window_map2 [OF this]
  have "\<forall>i<fft_size x.
      ?seg ! i = (if buffer_getchannelcount buffer = 1 then samples ! (nat start + i)
                  else round_float (samples ! (2 * (nat start + i))
                                    + samples ! (2 * (nat start + i) + 1)) / 2)"
    by (simp add: segment_def)
  moreover have "length ?seg = fft_size x" by simp
  moreover from cs(6) obtain x' where
    "chiller_capture_spectrum h x = Some (Spectrum_captured, x')"
    "analysis_buffer x' = chiller_apply_window ?seg (window x)"
    by (simp add: st aw)
  ultimately show ?thesis
    using cs(2-4) st by (simp only:) blast
qed

theorem capture_reads_segment_witness:
  "chiller_inv state_07 \<and> buffer_ref state_07 = Some 0
   \<and> buffer_ref_getobject stereo_host 0 = Some stereo_buffer
   \<and> buffer_locksamples stereo_buffer = Some (map real [0..<1044])
   \<and> buffer_ok stereo_buffer \<and> int (fft_size state_07) \<le> 522
   \<and> capture_start_frame (position state_07) 522 (fft_size state_07) = 7
   \<and> (\<exists>seg x'. copy_samples (map real [0..<1044]) 2 7 512 0 (analysis_buffer state_07) = Some seg
         \<and> length seg = 512 \<and> seg ! 0 = 29 / 2 \<and> seg ! 511 = 2073 / 2
         \<and> chiller_capture_spectrum stereo_host state_07 = Some (Spectrum_captured, x')
         \<and> analysis_buffer x' = chiller_apply_window seg (window state_07))"
proof -
  have big: "int (fft_size state_07) \<le> buffer_getframecount stereo_buffer"
    by (simp add: state_07_simps stereo_buffer_simps)
  from capture_reads_segment [OF state_07_inv state_07_simps(1) stereo_buffer_simps(4)
      stereo_buffer_simps(1) stereo_buffer_ok big]
  obtain seg x' where
    s: "capture_start_frame (position state_07) 522 (fft_size state_07)
          = \<lfloor>round_double (position state_07 * real_of_int (522 - int (fft_size state_07)))\<rfloor>"
    and c: "copy_samples (map real [0..<1044]) 2
          \<lfloor>round_double (position state_07 * real_of_int (522 - int (fft_size state_07)))\<rfloor>
          512 0 (analysis_buffer state_07) = Some seg"
    and l: "length seg = 512"
    and v: "\<forall>i<512. seg ! i
          = round_float (map real [0..<1044] ! (2 * (nat \<lfloor>round_double (position state_07 * real_of_int (522 - int (fft_size state_07)))\<rfloor> + i))
              + map real [0..<1044] ! (2 * (nat \<lfloor>round_double (position state_07 * real_of_int (522 - int (fft_size state_07)))\<rfloor> + i) + 1)) / 2"
    and r: "chiller_capture_spectrum stereo_host state_07 = Some (Spectrum_captured, x')"
    and a: "analysis_buffer x' = chiller_apply_window seg (window state_07)"
    by (simp only: stereo_buffer_simps state_07_simps(2)) force
  have f: "\<lfloor>round_double (position state_07 * real_of_int (522 - int (fft_size state_07)))\<rfloor> = 7"
    using s start_frame_07 by simp
  have "seg ! 0 = round_float (real_of_int 29) / 2"
    using v [unfolded f] by (simp del: upt_rec_numeral)
  then have v0: "seg ! 0 = 29 / 2" using round_float_int [of 29] by simp
  have "seg ! 511 = round_float (real_of_int 2073) / 2"
    using v [unfolded f] by (simp del: upt_rec_numeral)
  then have v1: "seg ! 511 = 2073 / 2" using round_float_int [of 2073] by simp
  from c [unfolded f] l v0 v1 r a state_07_inv state_07_simps(1) stereo_buffer_ok start_frame_07
    stereo_buffer_simps(1,4)
  show ?thesis by (simp add: state_07_simps(2) del: upt_rec_numeral)
qed



subsection \<open>The grain and the per-sample step\<close>

lemma chiller_ifft_total:
  assumes "length fb = 2 ^ K"
  shows "\<exists>fb'. chiller_ifft fb = Some fb' \<and> length fb' = length fb"
proof -
  have "length (map cnj fb) = 2 ^ K" using assms by simp
  from chiller_fft_dft [OF this] show ?thesis by (simp add: chiller_ifft_def)
qed

lemma randomize_spectrum_total:
  "length frozen \<le> length fb \<Longrightarrow>
   \<exists>fb' g'. randomize_spectrum h pr av frozen j g fb = Some (fb', g') \<and> length fb' = length fb"
proof (induction "length frozen - j" arbitrary: j g fb rule: less_induct)
  case less
  show ?case
  proof (cases "j < length frozen")
    case False
    then show ?thesis by (subst randomize_spectrum.simps) simp
  next
    case True
    obtain d1 g1 where p: "phase_dist h g = (d1, g1)" by (cases "phase_dist h g")
    obtain d2 g2 where a: "amp_dist h g1 = (d2, g2)" by (cases "amp_dist h g1")
    let ?v = "complex_of_real (cmod (frozen ! j) * (1.0 + d2 * av)) * cis (Arg (frozen ! j) + d1 * pr)"
    let ?f1 = "fb[j := ?v]"
    have m: "length frozen - (j + 1) < length frozen - j" using True by simp
    have l: "length frozen \<le> length ?f1" using less.prems by simp
    from less.hyps [OF m l, of g2] obtain fb' g' where
      r: "randomize_spectrum h pr av frozen (j + 1) g2 ?f1 = Some (fb', g')" "length fb' = length ?f1"
      by blast
    have v: "vset fb j ?v = Some ?f1" using True less.prems by (simp add: vset_def)
    have "randomize_spectrum h pr av frozen j g fb = Some (fb', g')"
      by (subst randomize_spectrum.simps) (simp only: True if_True p a prod.case Let_def v option.case r(1))
    with r(2) show ?thesis by simp
  qed
qed

lemma add_sample_Some:
  assumes "j < length fb" "j < length win" "j < length l" "j < length r"
  shows "add_sample fb win j l r =
     Some (l[j := l ! j + Re (fb ! j) * win ! j * 0.8], r[j := r ! j + Re (fb ! j) * win ! j * 1.0])"
  using assms by (simp add: add_sample_def vget_def vset_def)

lemma overlap_add_total:
  "length fb \<le> length win \<Longrightarrow> length fb \<le> length l \<Longrightarrow> length fb \<le> length r \<Longrightarrow>
   \<exists>l' r'. overlap_add fb win j l r = Some (l', r') \<and> length l' = length l \<and> length r' = length r"
proof (induction "length fb - j" arbitrary: j l r rule: less_induct)
  case less
  show ?case
  proof (cases "j < length fb")
    case False
    then show ?thesis by (subst overlap_add.simps) simp
  next
    case True
    let ?l1 = "l[j := l ! j + Re (fb ! j) * win ! j * 0.8]"
    let ?r1 = "r[j := r ! j + Re (fb ! j) * win ! j * 1.0]"
    have s: "add_sample fb win j l r = Some (?l1, ?r1)"
      using True less.prems by (intro add_sample_Some) simp_all
    have m: "length fb - (j + 1) < length fb - j" using True by simp
    have "length fb \<le> length ?l1" "length fb \<le> length ?r1" using less.prems by simp_all
    from less.hyps [OF m less.prems(1) this] obtain l' r' where
      o: "overlap_add fb win (j + 1) ?l1 ?r1 = Some (l', r')" "length l' = length ?l1" "length r' = length ?r1"
      by blast
    have "overlap_add fb win j l r = Some (l', r')"
      by (subst overlap_add.simps) (simp only: True if_True s option.case prod.case o(1))
    with o(2,3) show ?thesis by simp
  qed
qed

lemma shift_sample_Some:
  assumes "j + 1 < length l" "j + 1 < length r"
  shows "shift_sample j l r = Some (l[j := l ! (j + 1)], r[j := r ! (j + 1)])"
  using assms by (simp add: shift_sample_def vget_def vset_def)

lemma shift_loop_part:
  "n < length l \<Longrightarrow> n < length r \<Longrightarrow> j \<le> n \<Longrightarrow>
   shift_loop n j l r =
     Some (map (\<lambda>t. if j \<le> t \<and> t < n then l ! (t + 1) else l ! t) [0..<length l],
           map (\<lambda>t. if j \<le> t \<and> t < n then r ! (t + 1) else r ! t) [0..<length r])"
proof (induction "n - j" arbitrary: j l r rule: less_induct)
  case less
  show ?case
  proof (cases "j < n")
    case False
    then have "map (\<lambda>t. if j \<le> t \<and> t < n then l ! (t + 1) else l ! t) [0..<length l] = l"
      "map (\<lambda>t. if j \<le> t \<and> t < n then r ! (t + 1) else r ! t) [0..<length r] = r"
      by (auto intro!: nth_equalityI)
    with False show ?thesis by (subst shift_loop.simps) simp
  next
    case True
    let ?l1 = "l[j := l ! (j + 1)]"
    let ?r1 = "r[j := r ! (j + 1)]"
    have s: "shift_sample j l r = Some (?l1, ?r1)"
      using True less.prems by (intro shift_sample_Some) simp_all
    have m: "n - (j + 1) < n - j" using True by simp
    have "n < length ?l1" "n < length ?r1" "j + 1 \<le> n" using less.prems True by simp_all
    from less.hyps [OF m this]
    have ih: "shift_loop n (j + 1) ?l1 ?r1 =
      Some (map (\<lambda>t. if j + 1 \<le> t \<and> t < n then ?l1 ! (t + 1) else ?l1 ! t) [0..<length ?l1],
            map (\<lambda>t. if j + 1 \<le> t \<and> t < n then ?r1 ! (t + 1) else ?r1 ! t) [0..<length ?r1])" .
    have el: "map (\<lambda>t. if j + 1 \<le> t \<and> t < n then ?l1 ! (t + 1) else ?l1 ! t) [0..<length ?l1]
        = map (\<lambda>t. if j \<le> t \<and> t < n then l ! (t + 1) else l ! t) [0..<length l]"
      using True less.prems(1) by (intro nth_equalityI) (auto simp: nth_list_update)
    have er: "map (\<lambda>t. if j + 1 \<le> t \<and> t < n then ?r1 ! (t + 1) else ?r1 ! t) [0..<length ?r1]
        = map (\<lambda>t. if j \<le> t \<and> t < n then r ! (t + 1) else r ! t) [0..<length r]"
      using True less.prems(2) by (intro nth_equalityI) (auto simp: nth_list_update)
    show ?thesis
      by (subst shift_loop.simps) (simp only: True if_True s option.case prod.case ih el er)
  qed
qed

lemma shifted_list:
  assumes "0 < length l"
  shows "(map (\<lambda>t. if 0 \<le> t \<and> t < length l - 1 then l ! (t + 1) else l ! t) [0..<length l])
           [length l - 1 := 0::real] = tl l @ [0]"
proof (rule nth_equalityI)
  show "length ((map (\<lambda>t. if 0 \<le> t \<and> t < length l - 1 then l ! (t + 1) else l ! t) [0..<length l])
           [length l - 1 := 0]) = length (tl l @ [0])"
    using assms by simp
next
  fix t
  assume "t < length ((map (\<lambda>t. if 0 \<le> t \<and> t < length l - 1 then l ! (t + 1) else l ! t) [0..<length l])
           [length l - 1 := 0])"
  then have t: "t < length l" by simp
  show "(map (\<lambda>t. if 0 \<le> t \<and> t < length l - 1 then l ! (t + 1) else l ! t) [0..<length l])
           [length l - 1 := 0] ! t = (tl l @ [0]) ! t"
  proof (cases "t = length l - 1")
    case True
    then show ?thesis using t by (simp add: nth_append)
  next
    case False
    with t have "t < length l - 1" by simp
    then show ?thesis using t by (simp add: nth_append nth_tl)
  qed
qed

lemma shift_overlap_eq:
  assumes "0 < length l" "length r = length l"
  shows "shift_overlap l r = Some (tl l @ [0], tl r @ [0])"
proof -
  let ?l1 = "map (\<lambda>t. if 0 \<le> t \<and> t < length l - 1 then l ! (t + 1) else l ! t) [0..<length l]"
  let ?r1 = "map (\<lambda>t. if 0 \<le> t \<and> t < length r - 1 then r ! (t + 1) else r ! t) [0..<length r]"
  have "shift_loop (length l - 1) 0 l r = Some (?l1, ?r1)"
    using shift_loop_part [of "length l - 1" l r 0] assms by simp
  moreover have "vset ?l1 (length ?l1 - 1) 0.0 = Some (tl l @ [0])"
    using assms(1) shifted_list [OF assms(1)] by (simp add: vset_def)
  moreover have "vset ?r1 (length ?r1 - 1) 0.0 = Some (tl r @ [0])"
    using assms shifted_list [of r] by (simp add: vset_def)
  ultimately show ?thesis
    using assms(1) by (simp add: shift_overlap_def)
qed

lemma generate_grain_total:
  assumes "chiller_inv x"
  shows "\<exists>x'. generate_grain h x = Some x' \<and> chiller_inv x'"
proof -
  let ?N = "fft_size x"
  from assms have lens: "length (frozen_spectrum x) = ?N" "length (window x) = ?N"
    "length (fft_buffer x) = ?N" "length (overlap_buffer_l x) = ?N" "length (overlap_buffer_r x) = ?N"
    by (simp_all add: chiller_inv_def)
  from assms obtain K where K: "?N = 2 ^ K"
    using valid_fft_size_pow by (auto simp add: chiller_inv_def)
  have "length (frozen_spectrum x) \<le> length (fft_buffer x)" by (simp add: lens)
  from randomize_spectrum_total [OF this] obtain fb g where
    rs: "randomize_spectrum h (phase_randomness x) (amplitude_variation x) (frozen_spectrum x) 0
           (rng x) (fft_buffer x) = Some (fb, g)" and lfb: "length fb = ?N"
    using lens(3) by metis
  from chiller_ifft_total [of fb K] lfb K obtain fb' where
    ii: "chiller_ifft fb = Some fb'" and lfb': "length fb' = ?N" by auto
  have "length fb' \<le> length (window x)" "length fb' \<le> length (overlap_buffer_l x)"
    "length fb' \<le> length (overlap_buffer_r x)" by (simp_all add: lens lfb')
  from overlap_add_total [OF this] obtain l r where
    oa: "overlap_add fb' (window x) 0 (overlap_buffer_l x) (overlap_buffer_r x) = Some (l, r)"
    and ll: "length l = ?N" and lr: "length r = ?N"
    using lens(4,5) by metis
  have "generate_grain h x =
      Some (x\<lparr>fft_buffer := fb', rng := g, overlap_buffer_l := l, overlap_buffer_r := r\<rparr>)"
    by (simp add: generate_grain_def rs ii oa)
  moreover have "chiller_inv (x\<lparr>fft_buffer := fb', rng := g, overlap_buffer_l := l, overlap_buffer_r := r\<rparr>)"
    using assms by (simp add: chiller_inv_def lfb' ll lr)
  ultimately show ?thesis by blast
qed

lemma hop_step_total:
  assumes "chiller_inv x"
  shows "\<exists>x'. hop_step h x = Some x' \<and> chiller_inv x'"
proof (cases "hop_due (x\<lparr>hop_counter := hop_counter x + 1\<rparr>)")
  case True
  have "chiller_inv (x\<lparr>hop_counter := hop_counter x + 1, hop_counter := 0\<rparr>)"
    using assms by (simp add: chiller_inv_def)
  from generate_grain_total [OF this, of h] True show ?thesis
    by (simp add: hop_step_def Let_def)
next
  case False
  moreover have "chiller_inv (x\<lparr>hop_counter := hop_counter x + 1\<rparr>)"
    using assms by (simp add: chiller_inv_def)
  ultimately show ?thesis by (simp add: hop_step_def Let_def)
qed

lemma hop_step_not_due:
  "\<not> hop_due (x\<lparr>hop_counter := hop_counter x + 1\<rparr>) \<Longrightarrow>
   hop_step h x = Some (x\<lparr>hop_counter := hop_counter x + 1\<rparr>)"
  by (simp add: hop_step_def Let_def)

lemma hop_step_fft_size:
  assumes "hop_step h x = Some x'"
  shows "fft_size x' = fft_size x"
  using assms
  by (auto simp add: hop_step_def generate_grain_def Let_def split: if_splits Option.bind_splits)

lemma perform_sample_result:
  assumes inv: "chiller_inv x" and hs: "hop_step h x = Some x2"
  shows "perform_sample h x =
     Some (overlap_buffer_l x2 ! 0 * 0.1, overlap_buffer_r x2 ! 0 * 0.1,
           x2\<lparr>overlap_buffer_l := tl (overlap_buffer_l x2) @ [0],
              overlap_buffer_r := tl (overlap_buffer_r x2) @ [0]\<rparr>)"
    and "chiller_inv (x2\<lparr>overlap_buffer_l := tl (overlap_buffer_l x2) @ [0],
              overlap_buffer_r := tl (overlap_buffer_r x2) @ [0]\<rparr>)"
proof -
  from hop_step_total [OF inv, of h] hs have inv2: "chiller_inv x2" by simp
  then have lens: "length (overlap_buffer_l x2) = fft_size x2" "length (overlap_buffer_r x2) = fft_size x2"
    and N: "512 \<le> fft_size x2"
    using valid_fft_size_bounds [of "fft_size x2"] by (simp_all add: chiller_inv_def)
  have pl: "0 < length (overlap_buffer_l x2)" and pr: "0 < length (overlap_buffer_r x2)"
    and eq: "length (overlap_buffer_r x2) = length (overlap_buffer_l x2)"
    using lens N by simp_all
  from shift_overlap_eq [OF pl eq] pl pr
  show "perform_sample h x =
     Some (overlap_buffer_l x2 ! 0 * 0.1, overlap_buffer_r x2 ! 0 * 0.1,
           x2\<lparr>overlap_buffer_l := tl (overlap_buffer_l x2) @ [0],
              overlap_buffer_r := tl (overlap_buffer_r x2) @ [0]\<rparr>)"
    by (simp add: perform_sample_def hs vget_def)
  show "chiller_inv (x2\<lparr>overlap_buffer_l := tl (overlap_buffer_l x2) @ [0],
              overlap_buffer_r := tl (overlap_buffer_r x2) @ [0]\<rparr>)"
    using inv2 pl pr by (simp add: chiller_inv_def)
qed

text \<open>
  The comparison is made with the rounded quotient: for the grain rate
  \<open>7205759403792793 / 2\<^sup>5\<^sup>1\<close> (the double just below 3.2) and a hop size of 128 the exact
  quotient is above 40, the double quotient is 40, and a grain is due at the count 40.
\<close>

lemma hop_due_rounded_quotient:
  "hop_due (example_state\<lparr>grain_rate := 7205759403792793 / 2 ^ 51, hop_counter := 40\<rparr>)
   \<and> real 40 < real 128 / (7205759403792793 / 2 ^ 51)"
proof -
  let ?q = "128 / (7205759403792793 / 2 ^ 51) :: real"
  have "ulp 53 (- 1022) ?q = 2 powi (5 - int 53 + 1)"
    by (rule ulp_eq) simp_all
  then have u: "ulp 53 (- 1022) ?q = 1 / 2 ^ 47" by (simp add: power_int_minus field_simps)
  have q: "round_double ?q = 40"
    unfolding round_double_def round_binary_def u
    by (simp add: round_even_def)
  have "double_of_long 128 / (7205759403792793 / 2 ^ 51) = ?q"
    using double_of_long_exact [of 128] by simp
  then have "round_double (double_of_long 128 / (7205759403792793 / 2 ^ 51)) = 40"
    using q by (simp only:)
  then show ?thesis
    using double_of_long_exact [of 40]
    by (simp add: hop_due_def example_state_def Let_def del: upt_rec_numeral)
qed

lemma playing_state_simps:
  "fft_size playing_state = 512" "hop_size playing_state = 128" "hop_counter playing_state = 0"
  "grain_rate playing_state = 1" "spectrum_captured playing_state"
  "overlap_buffer_l playing_state = 1 # 2 # replicate 510 0"
  "overlap_buffer_r playing_state = 3 # 4 # replicate 510 0"
  by (simp_all add: playing_state_def example_state_def del: upt_rec_numeral)

lemma playing_state_inv: "chiller_inv playing_state"
  using example_state_inv
  by (simp add: chiller_inv_def playing_state_def example_state_simps)

lemma playing_state_not_due: "\<not> hop_due (playing_state\<lparr>hop_counter := hop_counter playing_state + 1\<rparr>)"
  using double_of_long_exact [of 128] double_of_long_exact [of 1] round_double_int [of 128]
  by (simp add: hop_due_def playing_state_simps Let_def)

text \<open>
  C6.  For an object that satisfies its invariant, every per-sample step returns: after
  the hop counter has been advanced (and a grain added when one is due), the step emits the
  first entry of the left accumulator times 0.1 to the left output and the first entry of
  the right accumulator times 0.1 to the right output; then each accumulator is shifted
  left by one position, so entry \<open>i\<close> takes the old entry \<open>i + 1\<close> for every \<open>i < N - 1\<close>,
  the last entry is 0, and the length is still \<open>N\<close>.  Nothing else changes in the shift.
  When no grain is due the accumulators that are emitted and shifted are those the step
  started with.  While a spectrum is captured the audio callback takes exactly these steps:
  the first samples of its block are the emitted ones and the rest of the block continues
  from the shifted state.
\<close>

theorem perform_sample_emits_and_shifts:
  fixes x :: "'r t_chiller"
  assumes "chiller_inv x"
  shows "\<exists>x2 x'.
      hop_step h x = Some x2
      \<and> perform_sample h x = Some (overlap_buffer_l x2 ! 0 * 0.1, overlap_buffer_r x2 ! 0 * 0.1, x')
      \<and> x' = x2\<lparr>overlap_buffer_l := tl (overlap_buffer_l x2) @ [0],
                 overlap_buffer_r := tl (overlap_buffer_r x2) @ [0]\<rparr>
      \<and> length (overlap_buffer_l x2) = fft_size x \<and> length (overlap_buffer_r x2) = fft_size x
      \<and> length (overlap_buffer_l x') = fft_size x \<and> length (overlap_buffer_r x') = fft_size x
      \<and> (\<forall>i<fft_size x - 1.
            overlap_buffer_l x' ! i = overlap_buffer_l x2 ! (i + 1)
            \<and> overlap_buffer_r x' ! i = overlap_buffer_r x2 ! (i + 1))
      \<and> overlap_buffer_l x' ! (fft_size x - 1) = 0 \<and> overlap_buffer_r x' ! (fft_size x - 1) = 0
      \<and> (\<not> hop_due (x\<lparr>hop_counter := hop_counter x + 1\<rparr>) \<longrightarrow>
            overlap_buffer_l x2 = overlap_buffer_l x \<and> overlap_buffer_r x2 = overlap_buffer_r x)
      \<and> (spectrum_captured x \<longrightarrow>
            chiller_perform64 h x (Suc n)
              = Option.bind (perform_loop h n x')
                  (\<lambda>(out_l, out_r, x3).
                     Some (overlap_buffer_l x2 ! 0 * 0.1 # out_l,
                           overlap_buffer_r x2 ! 0 * 0.1 # out_r, x3)))"
proof -
  from hop_step_total [OF assms, of h] obtain x2 where
    hs: "hop_step h x = Some x2" and inv2: "chiller_inv x2" by blast
  let ?l = "overlap_buffer_l x2" and ?r = "overlap_buffer_r x2"
  let ?x' = "x2\<lparr>overlap_buffer_l := tl ?l @ [0], overlap_buffer_r := tl ?r @ [0]\<rparr>"
  let ?N = "fft_size x"
  have N: "fft_size x2 = ?N" by (rule hop_step_fft_size [OF hs])
  from inv2 have lens: "length ?l = ?N" "length ?r = ?N" and pos: "0 < ?N"
    using valid_fft_size_bounds [of "fft_size x2"] by (simp_all add: chiller_inv_def N)
  have l': "length (overlap_buffer_l ?x') = ?N" "length (overlap_buffer_r ?x') = ?N"
    using lens pos by simp_all
  have sh: "\<forall>i<?N - 1. overlap_buffer_l ?x' ! i = ?l ! (i + 1) \<and> overlap_buffer_r ?x' ! i = ?r ! (i + 1)"
    using lens by (simp add: nth_append nth_tl)
  have z: "overlap_buffer_l ?x' ! (?N - 1) = 0" "overlap_buffer_r ?x' ! (?N - 1) = 0"
    using lens by (simp_all add: nth_append)
  have nd: "\<not> hop_due (x\<lparr>hop_counter := hop_counter x + 1\<rparr>) \<longrightarrow>
      ?l = overlap_buffer_l x \<and> ?r = overlap_buffer_r x"
    using hs by (auto simp add: hop_step_not_due)
  note ps = perform_sample_result(1) [OF assms hs]
  have blk: "spectrum_captured x \<longrightarrow>
      chiller_perform64 h x (Suc n)
        = Option.bind (perform_loop h n ?x')
            (\<lambda>(out_l, out_r, x3). Some (?l ! 0 * 0.1 # out_l, ?r ! 0 * 0.1 # out_r, x3))"
  proof
    assume c: "spectrum_captured x"
    with assms have "buffer_ref x \<noteq> None" by (simp add: chiller_inv_def)
    with c show "chiller_perform64 h x (Suc n)
        = Option.bind (perform_loop h n ?x')
            (\<lambda>(out_l, out_r, x3). Some (?l ! 0 * 0.1 # out_l, ?r ! 0 * 0.1 # out_r, x3))"
      by (auto simp add: chiller_perform64_def ps)
  qed
  from ps hs lens l' sh z nd blk show ?thesis by blast
qed

theorem perform_sample_emits_and_shifts_witness:
  "chiller_inv playing_state \<and> spectrum_captured playing_state
   \<and> overlap_buffer_l playing_state = 1 # 2 # replicate 510 0
   \<and> overlap_buffer_r playing_state = 3 # 4 # replicate 510 0
   \<and> \<not> hop_due (playing_state\<lparr>hop_counter := hop_counter playing_state + 1\<rparr>)
   \<and> perform_sample (example_host 1024 0) playing_state
       = Some (1 / 10, 3 / 10,
               playing_state\<lparr>hop_counter := 1,
                              overlap_buffer_l := 2 # replicate 510 0 @ [0],
                              overlap_buffer_r := 4 # replicate 510 0 @ [0]\<rparr>)
   \<and> chiller_perform64 (example_host 1024 0) playing_state (Suc 0)
       = Some ([1 / 10], [3 / 10],
               playing_state\<lparr>hop_counter := 1,
                              overlap_buffer_l := 2 # replicate 510 0 @ [0],
                              overlap_buffer_r := 4 # replicate 510 0 @ [0]\<rparr>)"
proof -
  let ?h = "example_host 1024 0"
  let ?x1 = "playing_state\<lparr>hop_counter := hop_counter playing_state + 1\<rparr>"
  from perform_sample_emits_and_shifts [OF playing_state_inv, of ?h 0]
  obtain x2 x' where
    hs: "hop_step ?h playing_state = Some x2"
    and ps: "perform_sample ?h playing_state
       = Some (overlap_buffer_l x2 ! 0 * 0.1, overlap_buffer_r x2 ! 0 * 0.1, x')"
    and x': "x' = x2\<lparr>overlap_buffer_l := tl (overlap_buffer_l x2) @ [0],
             overlap_buffer_r := tl (overlap_buffer_r x2) @ [0]\<rparr>"
    and blk: "spectrum_captured playing_state \<longrightarrow>
            chiller_perform64 ?h playing_state (Suc 0)
              = Option.bind (perform_loop ?h 0 x')
                  (\<lambda>(out_l, out_r, x3).
                     Some (overlap_buffer_l x2 ! 0 * 0.1 # out_l,
                           overlap_buffer_r x2 ! 0 * 0.1 # out_r, x3))"
    by blast
  have x2: "x2 = ?x1"
    using hs hop_step_not_due [OF playing_state_not_due, of ?h] by simp
  have l: "overlap_buffer_l x2 = 1 # 2 # replicate 510 0"
    and r: "overlap_buffer_r x2 = 3 # 4 # replicate 510 0"
    unfolding x2 by (simp_all add: playing_state_simps)
  have e: "x' = playing_state\<lparr>hop_counter := 1,
                              overlap_buffer_l := 2 # replicate 510 0 @ [0],
                              overlap_buffer_r := 4 # replicate 510 0 @ [0]\<rparr>"
    unfolding x' l r unfolding x2 by (simp add: playing_state_simps)
  have p: "perform_sample ?h playing_state = Some (1 / 10, 3 / 10, x')"
    using ps unfolding l r by simp
  have b: "chiller_perform64 ?h playing_state (Suc 0) = Some ([1 / 10], [3 / 10], x')"
    using blk playing_state_simps(5) unfolding l r by simp
  from p b show ?thesis
    unfolding e
    using playing_state_inv playing_state_simps(5,6,7) playing_state_not_due by blast
qed

lemma perform_loop_total:
  "chiller_inv x \<Longrightarrow>
   \<exists>out_l out_r x'. perform_loop h n x = Some (out_l, out_r, x') \<and> chiller_inv x'
      \<and> length out_l = n \<and> length out_r = n"
proof (induction n arbitrary: x)
  case 0
  then show ?case by simp
next
  case (Suc n)
  from hop_step_total [OF Suc.prems, of h] obtain x2 where hs: "hop_step h x = Some x2" by blast
  note ps = perform_sample_result [OF Suc.prems hs]
  from Suc.IH [OF ps(2)] obtain out_l out_r x' where
    "perform_loop h n (x2\<lparr>overlap_buffer_l := tl (overlap_buffer_l x2) @ [0],
              overlap_buffer_r := tl (overlap_buffer_r x2) @ [0]\<rparr>) = Some (out_l, out_r, x')"
    "chiller_inv x'" "length out_l = n" "length out_r = n"
    by blast
  then show ?case by (simp add: ps(1))
qed

subsection \<open>Every capture returns and keeps the invariant\<close>

lemma capture_total:
  fixes x :: "'r t_chiller"
  assumes inv: "chiller_inv x" and h: "host_ok h"
  shows "\<exists>e x'. chiller_capture_spectrum h x = Some (e, x') \<and> chiller_inv x'
           \<and> (\<not> capturing_spectrum x') = (e \<noteq> No_buffer_set \<or> \<not> capturing_spectrum x)
           \<and> position x' = position x
           \<and> last_position_change_time x' = last_position_change_time x
           \<and> (e \<noteq> Spectrum_captured \<longrightarrow> spectrum_captured x' = spectrum_captured x)"
proof (cases "capture_failure h x")
  case (Some e)
  have ne: "e \<noteq> Spectrum_captured" using capture_failure_not_captured [of h x] Some by auto
  have i2: "chiller_inv (x\<lparr>capturing_spectrum := False\<rparr>)" using inv by (simp add: chiller_inv_def)
  show ?thesis
  proof (cases "e = No_buffer_set")
    case True
    have "chiller_capture_spectrum h x = Some (e, x)"
      by (subst capture_cases) (simp add: Some True)
    with inv ne True show ?thesis by simp
  next
    case False
    have "chiller_capture_spectrum h x = Some (e, x\<lparr>capturing_spectrum := False\<rparr>)"
      using False by (subst capture_cases) (simp add: Some split: report.splits)
    with i2 ne False show ?thesis by simp
  qed
next
  case None
  then obtain ref buffer samples where
    ref: "buffer_ref x = Some ref" and obj: "buffer_ref_getobject h ref = Some buffer"
    and smp: "buffer_locksamples buffer = Some samples"
    and big: "int (fft_size x) \<le> buffer_getframecount buffer"
    by (auto simp add: capture_failure_def split: option.splits if_splits)
  from h obj have ok: "buffer_ok buffer" by (simp add: host_ok_def)
  note cs = capture_success [OF inv ref obj smp ok big]
  let ?x' = "x\<lparr>analysis_buffer :=
               map2 (*) (segment samples (buffer_getchannelcount buffer)
                 (nat (capture_start_frame (position x) (buffer_getframecount buffer) (fft_size x)))
                 (fft_size x)) (window x),
             fft_buffer := normalize_spectrum (fft_size x)
               (dft (map (\<lambda>v. Complex v 0)
                 (map2 (*) (segment samples (buffer_getchannelcount buffer)
                   (nat (capture_start_frame (position x) (buffer_getframecount buffer) (fft_size x)))
                   (fft_size x)) (window x)))),
             frozen_spectrum := normalize_spectrum (fft_size x)
               (dft (map (\<lambda>v. Complex v 0)
                 (map2 (*) (segment samples (buffer_getchannelcount buffer)
                   (nat (capture_start_frame (position x) (buffer_getframecount buffer) (fft_size x)))
                   (fft_size x)) (window x)))),
             overlap_buffer_l := replicate (fft_size x) 0,
             overlap_buffer_r := replicate (fft_size x) 0,
             hop_counter := 0, spectrum_captured := True, capturing_spectrum := False\<rparr>"
  from inv have "length (window x) = fft_size x" by (simp add: chiller_inv_def)
  then have "chiller_inv ?x'" using inv ref by (simp add: chiller_inv_def)
  with cs(6) show ?thesis by simp
qed

subsection \<open>Position changes\<close>

lemma set_position_dropped:
  "systimer_gettime h - last_position_change_time x < 500 \<Longrightarrow>
   chiller_set_position h x pos = Some (None, x)"
  by (simp add: chiller_set_position_def Let_def)

lemma set_position_accepted:
  fixes x :: "'r t_chiller"
  assumes t: "500 \<le> systimer_gettime h - last_position_change_time x"
  shows "chiller_set_position h x pos = Some (rep, x') \<Longrightarrow>
           position x' = CLAMP pos 0 1 \<and> last_position_change_time x' = systimer_gettime h"
    and "chiller_inv x \<Longrightarrow> host_ok h \<Longrightarrow>
           \<exists>rep x'. chiller_set_position h x pos = Some (rep, x') \<and> chiller_inv x'
              \<and> (\<not> capturing_spectrum x \<longrightarrow> \<not> capturing_spectrum x')
              \<and> (\<not> spectrum_captured x \<longrightarrow> rep \<noteq> Some Spectrum_captured \<longrightarrow> \<not> spectrum_captured x')"
proof -
  let ?x1 = "x\<lparr>position := CLAMP pos 0 1, last_position_change_time := systimer_gettime h\<rparr>"
  from t have nt: "\<not> systimer_gettime h - last_position_change_time x < 500" by simp
  have sp: "chiller_set_position h x pos =
      (if \<not> capturing_spectrum x
       then map_option (\<lambda>(rep, x'). (Some rep, x'))
              (chiller_capture_spectrum h (?x1\<lparr>spectrum_captured := False\<rparr>))
       else Some (None, ?x1))"
    using nt by (simp add: chiller_set_position_def Let_def)
  {
    assume r: "chiller_set_position h x pos = Some (rep, x')"
    show "position x' = CLAMP pos 0 1 \<and> last_position_change_time x' = systimer_gettime h"
    proof (cases "capturing_spectrum x")
      case True
      with r sp show ?thesis by auto
    next
      case False
      with r sp obtain e where
        c: "chiller_capture_spectrum h (?x1\<lparr>spectrum_captured := False\<rparr>) = Some (e, x')"
        by auto
      show ?thesis
      proof (cases "capture_failure h (?x1\<lparr>spectrum_captured := False\<rparr>)")
        case (Some e')
        with c have "x' = ?x1\<lparr>spectrum_captured := False\<rparr>
            \<or> x' = ?x1\<lparr>spectrum_captured := False, capturing_spectrum := False\<rparr>"
          by (subst (asm) capture_cases) (auto split: report.splits)
        then show ?thesis by auto
      next
        case None
        with c show ?thesis
          by (auto simp add: capture_failure_def chiller_capture_spectrum_def Let_def
              split: option.splits if_splits Option.bind_splits)
      qed
    qed
  }
  {
    assume inv: "chiller_inv x" and h: "host_ok h"
    have r: "0 \<le> CLAMP pos 0 1 \<and> CLAMP pos 0 1 \<le> 1" by (rule CLAMP_range) simp
    show "\<exists>rep x'. chiller_set_position h x pos = Some (rep, x') \<and> chiller_inv x'
              \<and> (\<not> capturing_spectrum x \<longrightarrow> \<not> capturing_spectrum x')
              \<and> (\<not> spectrum_captured x \<longrightarrow> rep \<noteq> Some Spectrum_captured \<longrightarrow> \<not> spectrum_captured x')"
    proof (cases "capturing_spectrum x")
      case True
      have "chiller_inv ?x1" using inv r by (simp add: chiller_inv_def)
      with True sp show ?thesis by simp
    next
      case False
      have "chiller_inv (?x1\<lparr>spectrum_captured := False\<rparr>)" using inv r by (simp add: chiller_inv_def)
      from capture_total [OF this h] obtain e x' where
        "chiller_capture_spectrum h (?x1\<lparr>spectrum_captured := False\<rparr>) = Some (e, x')"
        "chiller_inv x'" "\<not> capturing_spectrum x'"
        "e \<noteq> Spectrum_captured \<longrightarrow> \<not> spectrum_captured x'"
        using False by auto
      with False sp show ?thesis by auto
    qed
  }
qed

text \<open>
  C5.  A position request that arrives less than 500 ms (by the system timer) after the time
  stored as the last accepted change is dropped: the command returns the state unchanged, so
  position and time stamp are unchanged, and no capture runs (nothing is reported).  A request
  that arrives at least 500 ms after it is accepted: the position becomes the argument
  clamped to \<open>[0, 1]\<close> and the time stamp becomes the current time, and the command
  returns for every object satisfying its invariant on a host with well-formed sources.
  Hence of two requests less than 500 ms apart, the first being accepted, the second is
  dropped.
\<close>

theorem set_position_debounce:
  fixes x :: "'r t_chiller"
  shows "(systimer_gettime h - last_position_change_time x < 500 \<longrightarrow>
            chiller_set_position h x pos = Some (None, x))
    \<and> (500 \<le> systimer_gettime h - last_position_change_time x \<longrightarrow>
          (\<forall>rep x'. chiller_set_position h x pos = Some (rep, x') \<longrightarrow>
              position x' = CLAMP pos 0 1 \<and> 0 \<le> position x' \<and> position x' \<le> 1
              \<and> last_position_change_time x' = systimer_gettime h
              \<and> (\<forall>h2 pos2. systimer_gettime h2 - systimer_gettime h < 500 \<longrightarrow>
                    chiller_set_position h2 x' pos2 = Some (None, x')))
          \<and> (chiller_inv x \<and> host_ok h \<longrightarrow> (\<exists>rep x'. chiller_set_position h x pos = Some (rep, x'))))"
proof (intro conjI impI allI)
  assume "systimer_gettime h - last_position_change_time x < 500"
  then show "chiller_set_position h x pos = Some (None, x)" by (rule set_position_dropped)
next
  fix rep x'
  assume t: "500 \<le> systimer_gettime h - last_position_change_time x"
    and r: "chiller_set_position h x pos = Some (rep, x')"
  from set_position_accepted(1) [OF t r]
  have a: "position x' = CLAMP pos 0 1" and b: "last_position_change_time x' = systimer_gettime h"
    by simp_all
  have c: "0 \<le> CLAMP pos 0 1 \<and> CLAMP pos 0 1 \<le> 1" by (rule CLAMP_range) simp
  show "position x' = CLAMP pos 0 1" by (rule a)
  show "0 \<le> position x'" "position x' \<le> 1" using a c by simp_all
  show "last_position_change_time x' = systimer_gettime h" by (rule b)
  fix h2 :: "'r host" and pos2
  assume "systimer_gettime h2 - systimer_gettime h < 500"
  then show "chiller_set_position h2 x' pos2 = Some (None, x')"
    using b by (intro set_position_dropped) simp
next
  assume "500 \<le> systimer_gettime h - last_position_change_time x"
    and "chiller_inv x \<and> host_ok h"
  then show "\<exists>rep x'. chiller_set_position h x pos = Some (rep, x')"
    using set_position_accepted(2) [of h x pos] by blast
qed

lemma example_host_ok: "0 \<le> frames \<Longrightarrow> frames < 2 ^ 53 \<Longrightarrow> host_ok (example_host frames time)"
  using example_buffer_ok [of frames] by (simp add: host_ok_def example_host_simps)

theorem set_position_debounce_witness:
  "systimer_gettime (example_host 1024 100) - last_position_change_time example_state < 500
   \<and> chiller_set_position (example_host 1024 100) example_state (7 / 10) = Some (None, example_state)
   \<and> 500 \<le> systimer_gettime (example_host 1024 1000) - last_position_change_time example_state
   \<and> chiller_inv example_state \<and> host_ok (example_host 1024 1000)
   \<and> (\<exists>rep x'. chiller_set_position (example_host 1024 1000) example_state (7 / 10) = Some (rep, x')
         \<and> position x' = 7 / 10 \<and> last_position_change_time x' = 1000
         \<and> chiller_set_position (example_host 1024 1200) x' (2 / 10) = Some (None, x'))"
proof -
  have t1: "systimer_gettime (example_host 1024 100) - last_position_change_time example_state < 500"
    by (simp add: example_host_simps example_state_simps)
  have t2: "500 \<le> systimer_gettime (example_host 1024 1000) - last_position_change_time example_state"
    by (simp add: example_host_simps example_state_simps)
  have ok: "host_ok (example_host 1024 1000)" by (rule example_host_ok) simp_all
  note d = set_position_debounce [of "example_host 1024 100" example_state "7 / 10"]
  note a = set_position_debounce [of "example_host 1024 1000" example_state "7 / 10"]
  from d t1 have drop: "chiller_set_position (example_host 1024 100) example_state (7 / 10)
      = Some (None, example_state)" by blast
  from a t2 example_state_inv ok obtain rep x' where
    r: "chiller_set_position (example_host 1024 1000) example_state (7 / 10) = Some (rep, x')"
    by blast
  from a t2 r have p: "position x' = CLAMP (7 / 10) 0 1"
    and l: "last_position_change_time x' = systimer_gettime (example_host 1024 1000)"
    and n: "\<forall>h2 pos2. systimer_gettime h2 - systimer_gettime (example_host 1024 1000) < 500 \<longrightarrow>
              chiller_set_position h2 x' pos2 = Some (None, x')"
    by blast+
  have "systimer_gettime (example_host 1024 1200) - systimer_gettime (example_host 1024 1000) < (500::real)"
    by (simp add: example_host_simps)
  with n have "chiller_set_position (example_host 1024 1200) x' (2 / 10) = Some (None, x')" by blast
  moreover have "position x' = 7 / 10" using p by (simp add: CLAMP_def)
  moreover have "last_position_change_time x' = 1000" using l by (simp add: example_host_simps)
  ultimately show ?thesis using t1 t2 drop example_state_inv ok r by blast
qed

subsection \<open>Silence until the next successful capture\<close>

lemma perform64_not_captured:
  "\<not> spectrum_captured x \<Longrightarrow>
   chiller_perform64 h x n = Some (replicate n 0, replicate n 0, x)"
  by (simp add: chiller_perform64_def silence_replicate)

lemma capture_keeps_captured:
  assumes "chiller_capture_spectrum h x = Some (e, x')" "e \<noteq> Spectrum_captured"
  shows "spectrum_captured x' = spectrum_captured x"
proof (cases "capture_failure h x")
  case None
  from capture_report_captured [OF None assms(1)] assms(2) show ?thesis by simp
next
  case (Some e')
  with assms(1) have "x' = x \<or> x' = x\<lparr>capturing_spectrum := False\<rparr>"
    by (subst (asm) capture_cases) (auto split: report.splits)
  then show ?thesis by auto
qed

lemma set_position_keeps_not_captured:
  assumes "chiller_set_position h x pos = Some (rep, x')" "\<not> spectrum_captured x"
    "rep \<noteq> Some Spectrum_captured"
  shows "\<not> spectrum_captured x'"
proof (cases "systimer_gettime h - last_position_change_time x < 500")
  case True
  from set_position_dropped [OF True, of pos] assms(1,2) show ?thesis by simp
next
  case False
  let ?x1 = "x\<lparr>position := CLAMP pos 0 1, last_position_change_time := systimer_gettime h\<rparr>"
  show ?thesis
  proof (cases "capturing_spectrum x")
    case True
    with False assms(1,2) show ?thesis
      by (auto simp add: chiller_set_position_def Let_def)
  next
    case nc: False
    with False assms(1) obtain e where
      c: "chiller_capture_spectrum h (?x1\<lparr>spectrum_captured := False\<rparr>) = Some (e, x')"
      and e: "rep = Some e"
      by (auto simp add: chiller_set_position_def Let_def)
    from e assms(3) have "e \<noteq> Spectrum_captured" by simp
    from capture_keeps_captured [OF c this] show ?thesis by simp
  qed
qed

lemma dispatch_keeps_silence:
  assumes "dispatch h x c = Some (r, x')" "\<not> spectrum_captured x" "r \<noteq> Posted Spectrum_captured"
  shows "\<not> spectrum_captured x' \<and> silent_response r"
proof (cases c)
  case (Set s)
  with assms show ?thesis by (auto simp add: chiller_set_buffer_def silent_response_def)
next
  case (Position pos)
  with assms(1) obtain rep where
    p: "chiller_set_position h x pos = Some (rep, x')"
    and r: "r = (case rep of None \<Rightarrow> Silent | Some e \<Rightarrow> Posted e)"
    by auto
  from r assms(3) have "rep \<noteq> Some Spectrum_captured" by auto
  from set_position_keeps_not_captured [OF p assms(2) this] r show ?thesis
    by (auto simp add: silent_response_def split: option.splits)
next
  case (Overlap v)
  with assms show ?thesis by (auto simp add: chiller_set_overlap_def silent_response_def)
next
  case (Rate v)
  with assms show ?thesis by (auto simp add: chiller_set_rate_def silent_response_def)
next
  case (Phaserand v)
  with assms show ?thesis by (auto simp add: chiller_set_phase_rand_def silent_response_def)
next
  case (Ampvar v)
  with assms show ?thesis by (auto simp add: chiller_set_amp_var_def silent_response_def)
next
  case Freeze
  with assms(1) obtain e where
    c: "chiller_capture_spectrum h x = Some (e, x')" and r: "r = Posted e"
    by (auto simp add: chiller_freeze_def)
  from r assms(3) have "e \<noteq> Spectrum_captured" by simp
  from capture_keeps_captured [OF c this] assms(2) r show ?thesis
    by (simp add: silent_response_def)
next
  case Bang
  with assms show ?thesis by (auto simp add: chiller_debug_def silent_response_def)
next
  case (Notify msg)
  with assms show ?thesis
    by (auto simp add: chiller_notify_def silent_response_def split: if_splits)
next
  case (Dsp64 samplerate)
  with assms show ?thesis by (auto simp add: chiller_dsp64_def silent_response_def)
next
  case (Perform64 n)
  with assms show ?thesis
    by (auto simp add: perform64_not_captured silent_response_def list_all_iff)
qed

lemma run_keeps_silence:
  "run cs x = Some (rs, x') \<Longrightarrow> \<not> spectrum_captured x \<Longrightarrow> Posted Spectrum_captured \<notin> set rs \<Longrightarrow>
   \<not> spectrum_captured x' \<and> list_all silent_response rs"
proof (induction cs arbitrary: x rs)
  case Nil
  then show ?case by simp
next
  case (Cons hc cs)
  obtain h c where hc: "hc = (h, c)" by (cases hc)
  from Cons.prems(1) obtain r x1 rs' where
    d: "dispatch h x c = Some (r, x1)" and rest: "run cs x1 = Some (rs', x')" and rs: "rs = r # rs'"
    unfolding hc by (auto split: Option.bind_splits)
  from Cons.prems(3) rs have nr: "r \<noteq> Posted Spectrum_captured" and nrs: "Posted Spectrum_captured \<notin> set rs'"
    by auto
  from dispatch_keeps_silence [OF d Cons.prems(2) nr] have s1: "\<not> spectrum_captured x1" "silent_response r"
    by simp_all
  from Cons.IH [OF rest s1(1) nrs] s1(2) rs show ?case by simp
qed

text \<open>
  C9.  Every execution of the set-buffer command, for every host, state and name (in
  particular when the name is the one already bound, or one for which the host returns no
  reference or no buffer), sets the captured flag to false and stores the name and the new
  reference; position, the tunable parameters, the overlap accumulators, the hop counter
  and all other fields keep their values.  In the resulting state the audio callback
  returns silence for every block size, and this stays so along every run of further
  messages in which no capture reports success: the captured flag is still false at the
  end and every audio block of the run is silent.
\<close>

theorem set_buffer_resets_capture:
  fixes x :: "'r t_chiller"
  shows "\<not> spectrum_captured (chiller_set_buffer h x s)
    \<and> buffer_name (chiller_set_buffer h x s) = s
    \<and> buffer_ref (chiller_set_buffer h x s) = buffer_ref_new h s
    \<and> chiller_set_buffer h x s
        = x\<lparr>buffer_name := s, buffer_ref := buffer_ref_new h s, spectrum_captured := False\<rparr>
    \<and> position (chiller_set_buffer h x s) = position x
    \<and> overlap_amount (chiller_set_buffer h x s) = overlap_amount x
    \<and> grain_rate (chiller_set_buffer h x s) = grain_rate x
    \<and> phase_randomness (chiller_set_buffer h x s) = phase_randomness x
    \<and> amplitude_variation (chiller_set_buffer h x s) = amplitude_variation x
    \<and> overlap_buffer_l (chiller_set_buffer h x s) = overlap_buffer_l x
    \<and> overlap_buffer_r (chiller_set_buffer h x s) = overlap_buffer_r x
    \<and> hop_counter (chiller_set_buffer h x s) = hop_counter x
    \<and> chiller_perform64 h1 (chiller_set_buffer h x s) n
        = Some (replicate n 0, replicate n 0, chiller_set_buffer h x s)
    \<and> (\<forall>cs rs x'. run cs (chiller_set_buffer h x s) = Some (rs, x')
            \<and> Posted Spectrum_captured \<notin> set rs \<longrightarrow>
          \<not> spectrum_captured x' \<and> list_all silent_response rs)"
proof -
  have nc: "\<not> spectrum_captured (chiller_set_buffer h x s)" by (simp add: chiller_set_buffer_def)
  have runs: "\<forall>cs rs x'. run cs (chiller_set_buffer h x s) = Some (rs, x')
            \<and> Posted Spectrum_captured \<notin> set rs \<longrightarrow>
          \<not> spectrum_captured x' \<and> list_all silent_response rs"
    using run_keeps_silence [OF _ nc] by blast
  have fields:
    "buffer_name (chiller_set_buffer h x s) = s"
    "buffer_ref (chiller_set_buffer h x s) = buffer_ref_new h s"
    "chiller_set_buffer h x s
        = x\<lparr>buffer_name := s, buffer_ref := buffer_ref_new h s, spectrum_captured := False\<rparr>"
    "position (chiller_set_buffer h x s) = position x"
    "overlap_amount (chiller_set_buffer h x s) = overlap_amount x"
    "grain_rate (chiller_set_buffer h x s) = grain_rate x"
    "phase_randomness (chiller_set_buffer h x s) = phase_randomness x"
    "amplitude_variation (chiller_set_buffer h x s) = amplitude_variation x"
    "overlap_buffer_l (chiller_set_buffer h x s) = overlap_buffer_l x"
    "overlap_buffer_r (chiller_set_buffer h x s) = overlap_buffer_r x"
    "hop_counter (chiller_set_buffer h x s) = hop_counter x"
    by (simp_all add: chiller_set_buffer_def)
  from nc fields perform64_not_captured [OF nc, of h1 n] runs show ?thesis
    by (intro conjI)
qed

theorem set_buffer_resets_capture_witness:
  "run [(example_host 100 0, Freeze), (example_host 100 0, Perform64 2)]
       (chiller_set_buffer (example_host 100 0) example_state ''buf'')
     = Some ([Posted Buffer_too_small, Audio [0, 0] [0, 0]],
             chiller_set_buffer (example_host 100 0) example_state ''buf'')
   \<and> Posted Spectrum_captured \<notin> set [Posted Buffer_too_small, Audio [0, 0] [0, 0]]
   \<and> \<not> spectrum_captured (chiller_set_buffer (example_host 100 0) example_state ''buf'')
   \<and> list_all silent_response [Posted Buffer_too_small, Audio [0, 0] [0, 0]]"
proof -
  let ?h = "example_host 100 0"
  let ?x = "chiller_set_buffer ?h example_state ''buf''"
  have nc: "\<not> spectrum_captured ?x" "\<not> capturing_spectrum ?x"
    by (simp_all add: chiller_set_buffer_def example_state_simps)
  have f: "capture_failure ?h ?x = Some Buffer_too_small"
    by (simp add: capture_failure_def chiller_set_buffer_def example_host_simps example_state_simps)
  have c: "chiller_capture_spectrum ?h ?x = Some (Buffer_too_small, ?x)"
    by (subst capture_cases) (simp add: f capturing_reset [OF nc(2)])
  have p: "chiller_perform64 ?h ?x 2 = Some ([0, 0], [0, 0], ?x)"
    using perform64_not_captured [OF nc(1), of ?h 2] by (simp add: numeral_2_eq_2)
  have r: "run [(?h, Freeze), (?h, Perform64 2)] ?x
      = Some ([Posted Buffer_too_small, Audio [0, 0] [0, 0]], ?x)"
    by (simp add: chiller_freeze_def c p)
  have ns: "Posted Spectrum_captured \<notin> set [Posted Buffer_too_small, Audio [0, 0] [0, 0]]"
    by simp
  from set_buffer_resets_capture [of ?h example_state "''buf''" ?h 2] r ns
  have "\<not> spectrum_captured ?x \<and> list_all silent_response [Posted Buffer_too_small, Audio [0, 0] [0, 0]]"
    by blast
  with r ns show ?thesis by blast
qed

subsection \<open>The invariant holds after construction and is kept by every message\<close>

lemma and_pred_zero_pow2:
  fixes r :: int
  shows "0 < r \<Longrightarrow> r AND (r - 1) = 0 \<Longrightarrow> \<exists>k. r = 2 ^ k"
proof (induction "nat r" arbitrary: r rule: less_induct)
  case less
  have rec: "r AND (r - 1) = of_bool (odd r \<and> odd (r - 1)) + 2 * ((r div 2) AND ((r - 1) div 2))"
    by (rule and_rec)
  show ?case
  proof (cases "even r")
    case True
    then obtain m where m: "r = 2 * m" by (elim evenE)
    with less.prems(1) have mp: "0 < m" by simp
    have "(r - 1) div 2 = m - 1" unfolding m by simp
    with rec less.prems(2) True have "m AND (m - 1) = 0" by (simp add: m)
    moreover have "nat m < nat r" using mp m by simp
    ultimately obtain k where "m = 2 ^ k" using less.hyps [of m] mp by blast
    then have "r = 2 ^ Suc k" by (simp add: m)
    then show ?thesis by blast
  next
    case False
    then obtain m where m: "r = 2 * m + 1" by (elim oddE)
    have "(r - 1) div 2 = m" "r div 2 = m" unfolding m by simp_all
    with rec less.prems(2) have "m = 0" by (simp add: m)
    then have "r = 2 ^ 0" by (simp add: m)
    then show ?thesis by blast
  qed
qed

lemma pow2_in_range:
  assumes "(512::nat) \<le> 2 ^ k" "(2::nat) ^ k \<le> 8192"
  shows "valid_fft_size (2 ^ k)"
proof -
  have "(2::nat) ^ 9 \<le> 2 ^ k" "(2::nat) ^ k \<le> 2 ^ 13" using assms by simp_all
  then have "9 \<le> k" "k \<le> 13" by (simp_all only: power_increasing_iff [of "2::nat"] one_less_numeral_iff semiring_norm)
  then have "k = 9 \<or> k = 10 \<or> k = 11 \<or> k = 12 \<or> k = 13" by linarith
  then show ?thesis by (auto simp add: valid_fft_size_def)
qed

lemma requested_fft_size_valid: "valid_fft_size (requested_fft_size argv)"
proof (cases argv rule: requested_fft_size.cases)
  case (1 r argv')
  show ?thesis
  proof (cases "r \<ge> 512 \<and> r \<le> 8192 \<and> r AND (r - 1) = 0")
    case True
    then obtain k where k: "r = 2 ^ k" using and_pred_zero_pow2 [of r] by auto
    then have n: "nat r = 2 ^ k" by (simp add: nat_power_eq)
    from True k have "(512::int) \<le> 2 ^ k" "(2::int) ^ k \<le> 8192" by simp_all
    then have "int 512 \<le> int (2 ^ k)" "int (2 ^ k) \<le> int 8192" by simp_all
    then have "(512::nat) \<le> 2 ^ k" "(2::nat) ^ k \<le> 8192" by (simp_all only: of_nat_le_iff)
    from pow2_in_range [OF this] have "valid_fft_size (nat r)" by (simp only: n)
    with True 1 show ?thesis by simp
  next
    case False
    with 1 show ?thesis by (auto simp add: CHILLER_DEFAULT_FFT_SIZE_def valid_fft_size_def)
  qed
qed (simp_all add: CHILLER_DEFAULT_FFT_SIZE_def valid_fft_size_def)

lemma chiller_new_inv:
  "\<exists>x. chiller_new h seed argv = Some x \<and> chiller_inv x
       \<and> \<not> spectrum_captured x \<and> \<not> capturing_spectrum x
       \<and> fft_size x = requested_fft_size argv
       \<and> position x = 1 / 2 \<and> last_position_change_time x = 0"
proof -
  let ?n = "requested_fft_size argv"
  have v: "valid_fft_size ?n" by (rule requested_fft_size_valid)
  then have "2 \<le> ?n" using valid_fft_size_bounds [of ?n] by simp
  from generate_window_loop_part [OF this, of "replicate ?n 0" 0]
  obtain win where w: "chiller_generate_window (replicate ?n 0) ?n = Some win" and l: "length win = ?n"
    by (simp add: chiller_generate_window_def)
  show ?thesis
    using v by (cases "buffer_argument argv")
      (simp_all add: chiller_new_def w l Let_def chiller_inv_def chiller_set_buffer_def)
qed

lemma hop_step_capturing:
  assumes "hop_step h x = Some x'"
  shows "capturing_spectrum x' = capturing_spectrum x"
  using assms
  by (auto simp add: hop_step_def generate_grain_def Let_def split: if_splits Option.bind_splits)

lemma perform_loop_capturing:
  "chiller_inv x \<Longrightarrow> perform_loop h n x = Some (out_l, out_r, x') \<Longrightarrow>
   capturing_spectrum x' = capturing_spectrum x"
proof (induction n arbitrary: x out_l out_r)
  case 0
  then show ?case by simp
next
  case (Suc n)
  from hop_step_total [OF Suc.prems(1), of h] obtain x2 where hs: "hop_step h x = Some x2" by blast
  note ps = perform_sample_result [OF Suc.prems(1) hs]
  let ?x1 = "x2\<lparr>overlap_buffer_l := tl (overlap_buffer_l x2) @ [0],
              overlap_buffer_r := tl (overlap_buffer_r x2) @ [0]\<rparr>"
  from Suc.prems(2) obtain ol or where "perform_loop h n ?x1 = Some (ol, or, x')"
    by (auto simp add: ps(1) split: Option.bind_splits)
  from Suc.IH [OF ps(2) this] hop_step_capturing [OF hs] show ?case by simp
qed

lemma dispatch_inv:
  fixes x :: "'r t_chiller"
  assumes inv: "chiller_inv x" and nc: "\<not> capturing_spectrum x" and h: "host_ok h"
  shows "\<exists>r x'. dispatch h x c = Some (r, x') \<and> chiller_inv x' \<and> \<not> capturing_spectrum x'"
proof (cases c)
  case (Set s)
  with inv nc show ?thesis by (simp add: chiller_set_buffer_def chiller_inv_def)
next
  case (Position pos)
  show ?thesis
  proof (cases "systimer_gettime h - last_position_change_time x < 500")
    case True
    from set_position_dropped [OF True, of pos] inv nc Position show ?thesis by simp
  next
    case False
    then have "500 \<le> systimer_gettime h - last_position_change_time x" by simp
    from set_position_accepted(2) [OF this inv h, of pos] nc Position show ?thesis by auto
  qed
next
  case (Overlap v)
  have "1 \<le> CLAMP v 1 8 \<and> CLAMP v 1 8 \<le> 8" by (rule CLAMP_range) simp
  with inv nc Overlap show ?thesis by (simp add: chiller_set_overlap_def chiller_inv_def)
next
  case (Rate v)
  have "1 / 10 \<le> CLAMP v (1 / 10) 4 \<and> CLAMP v (1 / 10) 4 \<le> 4" by (rule CLAMP_range) simp
  with inv nc Rate show ?thesis by (simp add: chiller_set_rate_def chiller_inv_def)
next
  case (Phaserand v)
  have "0 \<le> CLAMP v 0 1 \<and> CLAMP v 0 1 \<le> 1" by (rule CLAMP_range) simp
  with inv nc Phaserand show ?thesis by (simp add: chiller_set_phase_rand_def chiller_inv_def)
next
  case (Ampvar v)
  have "0 \<le> CLAMP v 0 (1 / 2) \<and> CLAMP v 0 (1 / 2) \<le> 1 / 2" by (rule CLAMP_range) simp
  with inv nc Ampvar show ?thesis by (simp add: chiller_set_amp_var_def chiller_inv_def)
next
  case Freeze
  from capture_total [OF inv h] nc Freeze show ?thesis by (auto simp add: chiller_freeze_def)
next
  case Bang
  with inv nc show ?thesis by (simp add: chiller_debug_def)
next
  case (Notify msg)
  with inv nc show ?thesis by (simp add: chiller_notify_def chiller_inv_def)
next
  case (Dsp64 samplerate)
  with inv nc show ?thesis by (simp add: chiller_dsp64_def chiller_inv_def)
next
  case (Perform64 n)
  show ?thesis
  proof (cases "\<not> spectrum_captured x \<or> buffer_ref x = None")
    case True
    with inv nc Perform64 show ?thesis
      by (auto simp add: chiller_perform64_def silence_replicate)
  next
    case False
    from perform_loop_total [OF inv, of h n] obtain out_l out_r x' where
      p: "perform_loop h n x = Some (out_l, out_r, x')" "chiller_inv x'" by blast
    have "capturing_spectrum x' = capturing_spectrum x"
      by (rule perform_loop_capturing [OF inv p(1)])
    with p False nc Perform64 show ?thesis by (auto simp add: chiller_perform64_def)
  qed
qed

subsection \<open>The concrete object is the one the constructor returns\<close>

lemma requested_512: "requested_fft_size [A_LONG 512, A_SYM s] = 512"
  by simp

lemma example_window:
  "chiller_generate_window (replicate 512 0) 512
     = Some (map (\<lambda>i. 1 / 2 * (1 - cos (2 * pi * real i / 511))) [0..<512])"
proof -
  have "map (\<lambda>t. if 0 \<le> t \<and> t < 512 then 1 / 2 * (1 - cos (2 * pi * real t / real (512 - 1)))
                  else replicate 512 0 ! t) [0..<length (replicate 512 (0::real))]
      = map (\<lambda>i. 1 / 2 * (1 - cos (2 * pi * real i / 511))) [0..<512]"
    by (rule nth_equalityI) (simp_all del: upt_rec_numeral)
  then show ?thesis
    using generate_window_loop_part [of 512 "replicate 512 0" 0]
    by (simp add: chiller_generate_window_def del: upt_rec_numeral)
qed

lemma example_state_constructed:
  "chiller_new (example_host frames time) 0 [A_LONG 512, A_SYM ''buf''] = Some example_state"
  by (simp add: chiller_new_def Let_def example_window chiller_set_buffer_def example_state_def
      example_host_simps del: upt_rec_numeral)

end
